theory Spec2Isabelle
  imports Complex_Main "HOL-Library.Multiset" "HOL-Library.Sublist" "HOL-Library.Char_ord"
    "HOL-Library.List_Lexorder" "HOL-Library.Product_Lexorder" "HOL-Library.Log_Nat"
begin

section \<open>JavaScript numbers\<close>

text \<open>
  A JavaScript number is a double, an infinity or NaN. A finite double is given by its
  value, a rational number. Negative zero is identified with zero, which \<open>||\<close>, \<open>!==\<close>,
  \<open>==\<close> and \<open><\<close> cannot tell apart.
\<close>

datatype jsnum = NaN | NegInf | Fin rat | PosInf

text \<open>
  The double nearest to a rational number, ties to the even significand. A double has a
  significand of 53 bits; the exponent of its last bit is at least -1074 and at most 971.
  The largest double is \<open>(2^53 - 1) * 2^971\<close>; what rounds above it is an infinity, and
  what rounds below the smallest double, \<open>2^-1074\<close>, is zero.
\<close>

definition log2_floor :: "rat \<Rightarrow> int" where
  \<comment> \<open>for \<open>a > 0\<close>, the \<open>e\<close> with \<open>2^e \<le> a < 2^(e+1)\<close>\<close>
  "log2_floor a =
     (let (n, d) = quotient_of a;
          e = bitlen n - bitlen d
      in if 2 powi e \<le> a then e else e - 1)"

definition round_half_even :: "rat \<Rightarrow> int" where
  "round_half_even x =
     (let f = \<lfloor>x\<rfloor>; r = x - of_int f
      in if r < 1 / 2 then f else if 1 / 2 < r then f + 1 else if even f then f else f + 1)"

definition to_double :: "rat \<Rightarrow> jsnum" where
  "to_double q =
     (if q = 0 then Fin 0
      else
        (let a = \<bar>q\<bar>;
             k = max (log2_floor a) (- 1022) - 52;
             m = round_half_even (a / 2 powi k)
         in if 971 < k \<or> (k = 971 \<and> 2 ^ 53 \<le> m) then (if 0 < q then PosInf else NegInf)
            else if 0 < q then Fin (of_int m * 2 powi k)
            else Fin (- (of_int m * 2 powi k))))"

text \<open>The binary \<open>-\<close> of two numbers: the difference, rounded.\<close>

fun js_sub :: "jsnum \<Rightarrow> jsnum \<Rightarrow> jsnum" where
  "js_sub NaN _ = NaN"
| "js_sub _ NaN = NaN"
| "js_sub (Fin x) (Fin y) = to_double (x - y)"
| "js_sub PosInf PosInf = NaN"
| "js_sub NegInf NegInf = NaN"
| "js_sub PosInf _ = PosInf"
| "js_sub NegInf _ = NegInf"
| "js_sub (Fin x) PosInf = NegInf"
| "js_sub (Fin x) NegInf = PosInf"

text \<open>The unary \<open>-\<close>.\<close>

fun js_neg :: "jsnum \<Rightarrow> jsnum" where
  "js_neg NaN = NaN"
| "js_neg NegInf = PosInf"
| "js_neg PosInf = NegInf"
| "js_neg (Fin x) = Fin (- x)"

text \<open>The binary \<open>*\<close>: the product, rounded; an infinity times zero is NaN.\<close>

fun js_mul :: "jsnum \<Rightarrow> jsnum \<Rightarrow> jsnum" where
  "js_mul NaN _ = NaN"
| "js_mul _ NaN = NaN"
| "js_mul (Fin x) (Fin y) = to_double (x * y)"
| "js_mul (Fin x) PosInf = (if x = 0 then NaN else if 0 < x then PosInf else NegInf)"
| "js_mul (Fin x) NegInf = (if x = 0 then NaN else if 0 < x then NegInf else PosInf)"
| "js_mul PosInf (Fin y) = (if y = 0 then NaN else if 0 < y then PosInf else NegInf)"
| "js_mul NegInf (Fin y) = (if y = 0 then NaN else if 0 < y then NegInf else PosInf)"
| "js_mul PosInf PosInf = PosInf"
| "js_mul NegInf NegInf = PosInf"
| "js_mul PosInf NegInf = NegInf"
| "js_mul NegInf PosInf = NegInf"

text \<open>\<open>a !== b\<close> and \<open>a == b\<close> on numbers: NaN differs from everything, itself included.\<close>

definition js_strict_ne :: "jsnum \<Rightarrow> jsnum \<Rightarrow> bool" where
  "js_strict_ne a b = (a = NaN \<or> b = NaN \<or> a \<noteq> b)"

definition js_eq :: "jsnum \<Rightarrow> jsnum \<Rightarrow> bool" where
  "js_eq a b = (a \<noteq> NaN \<and> b \<noteq> NaN \<and> a = b)"

text \<open>\<open>x < 0\<close> and \<open>x > 0\<close>; both are false of NaN.\<close>

fun js_lt0 :: "jsnum \<Rightarrow> bool" where
  "js_lt0 NegInf = True"
| "js_lt0 (Fin x) = (x < 0)"
| "js_lt0 _ = False"

fun js_gt0 :: "jsnum \<Rightarrow> bool" where
  "js_gt0 PosInf = True"
| "js_gt0 (Fin x) = (0 < x)"
| "js_gt0 _ = False"

text \<open>\<open>x || 0\<close>: NaN and zero are the falsy numbers.\<close>

definition or_zero :: "jsnum \<Rightarrow> jsnum" where
  "or_zero x = (if x = NaN \<or> x = Fin 0 then Fin 0 else x)"

section \<open>JavaScript strings\<close>

text \<open>
  Strings are lists of code units below 256: the ASCII characters of the catalog (version
  numbers, identifiers, dates) and the rest of Latin-1. The white space of \<open>trim\<close> and of
  \<open>Number\<close> is the language's white space and line terminators in this range, the
  no-break space included; \<open>toLowerCase\<close> maps the letters A to Z and the capital letters
  of Latin-1.
\<close>

definition is_ws :: "char \<Rightarrow> bool" where
  "is_ws c = (c = CHR 0x09 \<or> c = CHR 0x0A \<or> c = CHR 0x0B \<or> c = CHR 0x0C \<or> c = CHR 0x0D \<or>
     c = CHR '' '' \<or> c = CHR 0xA0)"

definition trim :: "string \<Rightarrow> string" where
  "trim s = rev (dropWhile is_ws (rev (dropWhile is_ws s)))"

definition lower_char :: "char \<Rightarrow> char" where
  "lower_char c =
     (let n = (of_char c :: nat)
      in if (65 \<le> n \<and> n \<le> 90) \<or> (192 \<le> n \<and> n \<le> 222 \<and> n \<noteq> 215) then char_of (n + 32) else c)"

definition toLowerCase :: "string \<Rightarrow> string" where
  "toLowerCase s = map lower_char s"

text \<open>\<open>parts.join(sep)\<close>.\<close>

fun join :: "string \<Rightarrow> string list \<Rightarrow> string" where
  "join sep [] = []"
| "join sep [x] = x"
| "join sep (x # y # ys) = x @ sep @ join sep (y # ys)"

text \<open>\<open>s.startsWith(t)\<close> and \<open>s.includes(t)\<close>.\<close>

fun starts_with :: "string \<Rightarrow> string \<Rightarrow> bool" where
  "starts_with s [] = True"
| "starts_with [] (c # t) = False"
| "starts_with (d # s) (c # t) = (d = c \<and> starts_with s t)"

fun str_includes :: "string \<Rightarrow> string \<Rightarrow> bool" where
  "str_includes [] t = (t = [])"
| "str_includes (c # s) t = (starts_with (c # s) t \<or> str_includes s t)"

text \<open>\<open>s.split('.')\<close>: the pieces between the dots, at least one piece.\<close>

fun split_from :: "string \<Rightarrow> string \<Rightarrow> string list" where
  "split_from acc [] = [rev acc]"
| "split_from acc (c # cs) =
     (if c = CHR ''.'' then rev acc # split_from [] cs else split_from (c # acc) cs)"

definition split_dot :: "string \<Rightarrow> string list" where
  "split_dot s = split_from [] s"

subsection \<open>\<open>Number(s)\<close> of a string\<close>

text \<open>
  The conversion follows the grammar of a string numeric literal without a decimal point
  (a component of a version never holds a dot): white space is trimmed; the empty string
  is 0; a binary, octal or hexadecimal literal has no sign; a decimal literal is an
  optional sign, then \<open>Infinity\<close> or digits with an optional exponent. The value of the
  literal is rounded to the nearest double. Everything else, a literal with a dot
  included, is NaN here.
\<close>

definition digit_of :: "nat \<Rightarrow> char \<Rightarrow> nat option" where
  "digit_of base c =
     (let n = (of_char c :: nat);
          d = (if 48 \<le> n \<and> n \<le> 57 then n - 48
               else if 97 \<le> n \<and> n \<le> 102 then n - 87
               else if 65 \<le> n \<and> n \<le> 70 then n - 55
               else base)
      in if d < base then Some d else None)"

fun digits_from :: "nat \<Rightarrow> int \<Rightarrow> string \<Rightarrow> int option" where
  "digits_from base acc [] = Some acc"
| "digits_from base acc (c # cs) =
     (case digit_of base c of
        None \<Rightarrow> None
      | Some d \<Rightarrow> digits_from base (acc * int base + int d) cs)"

definition digits :: "nat \<Rightarrow> string \<Rightarrow> int option" where
  "digits base s = (if s = [] then None else digits_from base 0 s)"

definition exponent :: "string \<Rightarrow> int option" where
  "exponent s =
     (case s of
        [] \<Rightarrow> None
      | c # cs \<Rightarrow>
          if c = CHR ''-'' then map_option (\<lambda>n. - n) (digits 10 cs)
          else if c = CHR ''+'' then digits 10 cs
          else digits 10 s)"

definition is_exp_mark :: "char \<Rightarrow> bool" where
  "is_exp_mark c = (c = CHR ''e'' \<or> c = CHR ''E'')"

definition scale10 :: "int \<Rightarrow> int \<Rightarrow> rat" where
  "scale10 m e = (if 0 \<le> e then of_int m * 10 ^ nat e else of_int m / 10 ^ nat (- e))"

definition unsigned_decimal :: "string \<Rightarrow> jsnum" where
  "unsigned_decimal s =
     (if s = ''Infinity'' then PosInf
      else
        (let m = takeWhile (\<lambda>c. \<not> is_exp_mark c) s;
             r = dropWhile (\<lambda>c. \<not> is_exp_mark c) s
         in case digits 10 m of
              None \<Rightarrow> NaN
            | Some n \<Rightarrow>
                (case r of
                   [] \<Rightarrow> to_double (of_int n)
                 | _ # e \<Rightarrow> (case exponent e of None \<Rightarrow> NaN | Some k \<Rightarrow> to_double (scale10 n k)))))"

definition radix_literal :: "string \<Rightarrow> jsnum option" where
  "radix_literal s =
     (case s of
        z # p # ds \<Rightarrow>
          if z \<noteq> CHR ''0'' then None
          else if p = CHR ''x'' \<or> p = CHR ''X'' then
            Some (case digits 16 ds of None \<Rightarrow> NaN | Some n \<Rightarrow> to_double (of_int n))
          else if p = CHR ''o'' \<or> p = CHR ''O'' then
            Some (case digits 8 ds of None \<Rightarrow> NaN | Some n \<Rightarrow> to_double (of_int n))
          else if p = CHR ''b'' \<or> p = CHR ''B'' then
            Some (case digits 2 ds of None \<Rightarrow> NaN | Some n \<Rightarrow> to_double (of_int n))
          else None
      | _ \<Rightarrow> None)"

definition Number :: "string \<Rightarrow> jsnum" where
  "Number s =
     (let t = trim s in
      if t = [] then Fin 0
      else
        (case radix_literal t of
           Some v \<Rightarrow> v
         | None \<Rightarrow>
             (case t of
                [] \<Rightarrow> Fin 0
              | c # cs \<Rightarrow>
                  if c = CHR ''-'' then js_neg (unsigned_decimal cs)
                  else if c = CHR ''+'' then unsigned_decimal cs
                  else unsigned_decimal t)))"

section \<open>dataLoader.ts: compareVersions\<close>

text \<open>\<open>a.split('.').map((v) => Number(v) || 0)\<close>.\<close>

definition components :: "string \<Rightarrow> jsnum list" where
  "components a = map (\<lambda>v. or_zero (Number v)) (split_dot a)"

text \<open>\<open>ap[i] ?? 0\<close>: reading past the end of an array gives undefined, which becomes 0.\<close>

definition at_or_zero :: "jsnum list \<Rightarrow> nat \<Rightarrow> jsnum" where
  "at_or_zero ap i = (if i < length ap then ap ! i else Fin 0)"

text \<open>The \<open>for\<close> loop of compareVersions from index \<open>i\<close>, and the return after it.\<close>

function compare_loop :: "jsnum list \<Rightarrow> jsnum list \<Rightarrow> nat \<Rightarrow> nat \<Rightarrow> jsnum" where
  "compare_loop ap bp len i =
     (if i < len then
        (let av = at_or_zero ap i; bv = at_or_zero bp i
         in if js_strict_ne av bv then js_sub av bv else compare_loop ap bp len (i + 1))
      else Fin (of_int (int (length ap) - int (length bp))))"
  by pat_completeness auto
termination
  by (relation "measure (\<lambda>(ap, bp, len, i). len - i)") auto

declare compare_loop.simps [simp del]

definition compareVersions :: "string \<Rightarrow> string \<Rightarrow> jsnum" where
  "compareVersions a b =
     (let ap = components a; bp = components b; len = max (length ap) (length bp)
      in compare_loop ap bp len 0)"

text \<open>
  The comparison as the specification words it: each string is split on the dots into
  numeric components, a component that is not numeric counting as 0; the two sequences
  are padded with 0 to a common length and compared component by component from the
  left; when no component differs, the shorter sequence comes first.
\<close>

datatype ordering = LT | EQ | GT

text \<open>The sign of a comparator's result, as \<open>sort\<close> reads it: NaN counts as zero.\<close>

definition sign_of :: "jsnum \<Rightarrow> ordering" where
  "sign_of x = (if js_lt0 x then LT else if js_gt0 x then GT else EQ)"

text \<open>\<open>a < b\<close> on numbers.\<close>

fun js_lt :: "jsnum \<Rightarrow> jsnum \<Rightarrow> bool" where
  "js_lt NaN _ = False"
| "js_lt _ NaN = False"
| "js_lt (Fin x) (Fin y) = (x < y)"
| "js_lt NegInf NegInf = False"
| "js_lt NegInf _ = True"
| "js_lt _ NegInf = False"
| "js_lt PosInf _ = False"
| "js_lt (Fin x) PosInf = True"

definition is_numeric :: "string \<Rightarrow> bool" where
  "is_numeric v = (Number v \<noteq> NaN)"

definition numeric_components :: "string \<Rightarrow> jsnum list" where
  "numeric_components a = map (\<lambda>v. if is_numeric v then Number v else Fin 0) (split_dot a)"

definition pad_zero :: "nat \<Rightarrow> jsnum list \<Rightarrow> jsnum list" where
  "pad_zero n xs = xs @ replicate (n - length xs) (Fin 0)"

definition compare_spec :: "string \<Rightarrow> string \<Rightarrow> ordering" where
  "compare_spec a b =
     (let ap = numeric_components a; bp = numeric_components b;
          n = max (length ap) (length bp)
      in case find (\<lambda>(x, y). x \<noteq> y) (zip (pad_zero n ap) (pad_zero n bp)) of
           Some (x, y) \<Rightarrow> if js_lt x y then LT else GT
         | None \<Rightarrow>
             if length ap < length bp then LT
             else if length bp < length ap then GT
             else EQ)"

text \<open>
  A key for the order of two versions: the components as pairs that order the infinities
  around the finite numbers, padded to a common length.
\<close>

definition num_key :: "jsnum \<Rightarrow> nat \<times> rat" where
  "num_key x = (case x of NegInf \<Rightarrow> (0, 0) | Fin r \<Rightarrow> (1, r) | PosInf \<Rightarrow> (2, 0) | NaN \<Rightarrow> (3, 0))"

definition version_key :: "nat \<Rightarrow> string \<Rightarrow> (nat \<times> rat) list" where
  "version_key n a = map num_key (pad_zero n (components a))"

definition key_order :: "nat \<Rightarrow> string \<Rightarrow> string \<Rightarrow> ordering" where
  "key_order n a b =
     (if version_key n a < version_key n b then LT
      else if version_key n b < version_key n a then GT
      else if length (components a) < length (components b) then LT
      else if length (components b) < length (components a) then GT
      else EQ)"

section \<open>types.ts: the catalog\<close>

datatype Platform = PlatformFabric | PlatformForge | PlatformNeoforge | PlatformExtension
  | PlatformTs | PlatformOther | PlatformPython

datatype Loader = Fabric | Forge | Neoforge

datatype ReleaseType = Release | Beta | Nightly

datatype Status = Supported | Deprecated | Experimental

text \<open>The \<open>platform\<close> of a download is one platform or an array of them.\<close>

datatype PlatformSpec = OnePlatform Platform | ManyPlatforms "Platform list"

record Download =
  download_name :: string
  download_platform :: PlatformSpec
  download_url :: string
  download_checksum :: "string option"
  download_notes :: "string option"

record Build =
  build_id :: string
  repo :: string
  fork :: string
  commit :: string
  jsMacrosVersion :: string
  modLoader :: "Loader list"
  extensions :: "string list"
  downloads :: "Download list"
  releaseType :: ReleaseType
  status :: "Status option"
  publishedAt :: "string option"
  notes' :: "string option"

text \<open>
  \<open>versions\<close> is an object from Minecraft version to builds; it is modelled by its
  entries in the order \<open>Object.entries\<close> lists them. The code guards against a payload
  without the member (\<open>json.versions || {}\<close>), so the member is optional here.
\<close>

record BuildsData =
  updatedAt :: string
  versions :: "(string \<times> Build list) list option"

record EnrichedBuild = Build +
  mcVersion :: string

text \<open>The strings that the enumerations are at run time.\<close>

fun loader_string :: "Loader \<Rightarrow> string" where
  "loader_string Fabric = ''fabric''"
| "loader_string Forge = ''forge''"
| "loader_string Neoforge = ''neoforge''"

fun releaseType_string :: "ReleaseType \<Rightarrow> string" where
  "releaseType_string Release = ''release''"
| "releaseType_string Beta = ''beta''"
| "releaseType_string Nightly = ''nightly''"

section \<open>dataLoader.ts: loadBuilds\<close>

text \<open>Decimal digits of a number in a template literal.\<close>

function show_nat :: "nat \<Rightarrow> string" where
  "show_nat n =
     (if n < 10 then [char_of (48 + n)] else show_nat (n div 10) @ [char_of (48 + n mod 10)])"
  by pat_completeness auto
termination
  by (relation "measure (\<lambda>n. n)") auto

declare show_nat.simps [simp del]

text \<open>
  What the outside world gives \<open>loadBuilds\<close>: \<open>fetch\<close> throws (a network failure) or
  resolves to a response with a status; \<open>res.json()\<close> throws (the body is not JSON) or
  gives the parsed catalog. A thrown value is an \<open>Error\<close> with its message, or anything else.
\<close>

datatype thrown = ErrorObject string | OtherValue

datatype json_outcome = JsonThrows thrown | JsonValue BuildsData

record response =
  http_status :: nat
  body :: json_outcome

datatype fetch_outcome = FetchThrows thrown | FetchResponse response

text \<open>\<open>res.ok\<close>: the status is in the range 200 to 299.\<close>

definition ok :: "response \<Rightarrow> bool" where
  "ok res = (200 \<le> http_status res \<and> http_status res \<le> 299)"

record load_result =
  data :: "BuildsData option"
  builds :: "EnrichedBuild list"
  error :: "string option"

text \<open>\<open>{ ...b, mcVersion }\<close>.\<close>

definition enrich :: "string \<Rightarrow> Build \<Rightarrow> EnrichedBuild" where
  "enrich v b = Build.extend b (EnrichedBuild.fields v)"

text \<open>\<open>Object.entries(...).flatMap(([mcVersion, arr]) => arr.map(...))\<close>.\<close>

definition flatten :: "(string \<times> Build list) list \<Rightarrow> EnrichedBuild list" where
  "flatten entries = concat (map (\<lambda>(v, arr). map (enrich v) arr) entries)"

text \<open>The body of the \<open>try\<close> block: \<open>Inl\<close> is a value thrown out of it.\<close>

definition loadBuilds_try :: "fetch_outcome \<Rightarrow> thrown + load_result" where
  "loadBuilds_try f =
     (case f of
        FetchThrows e \<Rightarrow> Inl e
      | FetchResponse res \<Rightarrow>
          if \<not> ok res then
            Inr \<lparr>data = None, builds = [],
                 error = Some (''Failed to fetch data ('' @ show_nat (http_status res) @ '')'')\<rparr>
          else
            (case body res of
               JsonThrows e \<Rightarrow> Inl e
             | JsonValue json \<Rightarrow>
                 Inr \<lparr>data = Some json,
                      builds = flatten (case versions json of None \<Rightarrow> [] | Some vs \<Rightarrow> vs),
                      error = None\<rparr>))"

text \<open>
  The whole function, with its \<open>catch\<close>: \<open>Inl\<close> would be an exception that leaves
  \<open>loadBuilds\<close> (a rejected promise).
\<close>

definition loadBuilds :: "fetch_outcome \<Rightarrow> thrown + load_result" where
  "loadBuilds f =
     (case loadBuilds_try f of
        Inl err \<Rightarrow>
          Inr \<lparr>data = None, builds = [],
               error = Some (case err of ErrorObject m \<Rightarrow> m | OtherValue \<Rightarrow> ''Unknown error'')\<rparr>
      | Inr r \<Rightarrow> Inr r)"

text \<open>The retrieval failed: a network failure, a status outside 2xx, or a body that is not JSON.\<close>

fun retrieval_failed :: "fetch_outcome \<Rightarrow> bool" where
  "retrieval_failed (FetchThrows e) = True"
| "retrieval_failed (FetchResponse res) =
     (if ok res then (case body res of JsonThrows e \<Rightarrow> True | JsonValue j \<Rightarrow> False) else True)"

section \<open>The view: guideResults and listResults\<close>

subsection \<open>The platform: dates and sorting\<close>

text \<open>
  \<open>new Date(s).getTime()\<close> for a date of the form YYYY-MM-DD, which the language reads
  as midnight UTC: the milliseconds since 1970-01-01. A string that is not a calendar
  date of this form is NaN here (an invalid date); what an engine makes of other forms is
  outside the model.
\<close>

definition is_leap :: "int \<Rightarrow> bool" where
  "is_leap y = (y mod 4 = 0 \<and> (y mod 100 \<noteq> 0 \<or> y mod 400 = 0))"

definition days_in_month :: "int \<Rightarrow> int \<Rightarrow> int" where
  "days_in_month y m =
     (if m = 2 then (if is_leap y then 29 else 28)
      else if m = 4 \<or> m = 6 \<or> m = 9 \<or> m = 11 then 30
      else 31)"

definition days_from_civil :: "int \<Rightarrow> int \<Rightarrow> int \<Rightarrow> int" where
  "days_from_civil y m d =
     (let y' = (if m \<le> 2 then y - 1 else y);
          era = y' div 400;
          yoe = y' - era * 400;
          mp = (m + 9) mod 12;
          doy = (153 * mp + 2) div 5 + d - 1;
          doe = yoe * 365 + yoe div 4 - yoe div 100 + doy
      in era * 146097 + doe - 719468)"

definition dateTime :: "string \<Rightarrow> jsnum" where
  "dateTime s =
     (if length s = 10 \<and> s ! 4 = CHR ''-'' \<and> s ! 7 = CHR ''-'' then
        (case (digits 10 (take 4 s), digits 10 (take 2 (drop 5 s)), digits 10 (drop 8 s)) of
           (Some y, Some m, Some d) \<Rightarrow>
             if 1 \<le> m \<and> m \<le> 12 \<and> 1 \<le> d \<and> d \<le> days_in_month y m
             then Fin (of_int (days_from_civil y m d * 86400000))
             else NaN
         | _ \<Rightarrow> NaN)
      else NaN)"

text \<open>
  \<open>array.sort(cmp)\<close>: the sort is stable, and \<open>a\<close> stays before \<open>b\<close> unless
  \<open>cmp(a, b) > 0\<close> (a NaN counts as 0). For a consistent comparator the result is the
  one stably sorted permutation, which insertion from the right computes; for any other
  comparator the language leaves the order to the engine.
\<close>

fun insert_sorted :: "('a \<Rightarrow> 'a \<Rightarrow> jsnum) \<Rightarrow> 'a \<Rightarrow> 'a list \<Rightarrow> 'a list" where
  "insert_sorted cmp x [] = [x]"
| "insert_sorted cmp x (y # ys) =
     (if js_gt0 (cmp x y) then y # insert_sorted cmp x ys else x # y # ys)"

definition js_sort :: "('a \<Rightarrow> 'a \<Rightarrow> jsnum) \<Rightarrow> 'a list \<Rightarrow> 'a list" where
  "js_sort cmp xs = foldr (insert_sorted cmp) xs []"

subsection \<open>guideResults\<close>

text \<open>\<open>required.every((ext) => build.extensions.includes(ext))\<close>.\<close>

definition buildMatchesExtensions :: "'a EnrichedBuild_scheme \<Rightarrow> string list \<Rightarrow> bool" where
  "buildMatchesExtensions build required =
     (if required = [] then True
      else list_all (\<lambda>ext. ext \<in> set (extensions build)) required)"

text \<open>
  The selected version is a string, the empty string when none is selected; the selected
  loader is a loader or the empty string, so an optional loader.
\<close>

definition guideResults ::
  "'a EnrichedBuild_scheme list \<Rightarrow> string \<Rightarrow> Loader option \<Rightarrow> string list
     \<Rightarrow> 'a EnrichedBuild_scheme list" where
  "guideResults bs selectedMcVersion selectedLoader extensionFilters =
     filter (\<lambda>b.
       if selectedMcVersion \<noteq> [] \<and> mcVersion b \<noteq> selectedMcVersion then False
       else if (case selectedLoader of None \<Rightarrow> False | Some l \<Rightarrow> l \<notin> set (modLoader b)) then False
       else buildMatchesExtensions b extensionFilters) bs"

text \<open>\<open>a.publishedAt ? new Date(a.publishedAt).getTime() : 0\<close>; the empty string is falsy.\<close>

definition timestamp :: "'a EnrichedBuild_scheme \<Rightarrow> jsnum" where
  "timestamp a =
     (case publishedAt a of
        None \<Rightarrow> Fin 0
      | Some d \<Rightarrow> if d = [] then Fin 0 else dateTime d)"

text \<open>The later revision of the view sorts the guided results, newer builds first.\<close>

definition newer_first :: "'a EnrichedBuild_scheme \<Rightarrow> 'a EnrichedBuild_scheme \<Rightarrow> jsnum" where
  "newer_first a b =
     (let da = timestamp a; db = timestamp b
      in if js_strict_ne da db then js_sub db da
         else compareVersions (mcVersion b) (mcVersion a))"

definition guideResults_sorted ::
  "'a EnrichedBuild_scheme list \<Rightarrow> string \<Rightarrow> Loader option \<Rightarrow> string list
     \<Rightarrow> 'a EnrichedBuild_scheme list" where
  "guideResults_sorted bs selectedMcVersion selectedLoader extensionFilters =
     js_sort newer_first (guideResults bs selectedMcVersion selectedLoader extensionFilters)"

text \<open>
  The criteria as the specification words them: an optional version, an optional loader
  and a set of required extensions.
\<close>

definition selection :: "string \<Rightarrow> string option" where
  "selection s = (if s = [] then None else Some s)"

definition criteria_match ::
  "string option \<Rightarrow> Loader option \<Rightarrow> string set \<Rightarrow> 'a EnrichedBuild_scheme \<Rightarrow> bool" where
  "criteria_match v l req e =
     ((case v of None \<Rightarrow> True | Some s \<Rightarrow> mcVersion e = s) \<and>
      (case l of None \<Rightarrow> True | Some x \<Rightarrow> x \<in> set (modLoader e)) \<and>
      req \<subseteq> set (extensions e))"

subsection \<open>listResults\<close>

datatype SortKey = PublishedAt | McVersion | JsMacrosVersion

datatype SortDirection = Asc | Desc

text \<open>The text of an entry that the search looks through.\<close>

definition haystack :: "'a EnrichedBuild_scheme \<Rightarrow> string" where
  "haystack b =
     toLowerCase (join '' ''
       [mcVersion b, jsMacrosVersion b, fork b, repo b, releaseType_string (releaseType b),
        join '' '' (map loader_string (modLoader b)),
        join '' '' (extensions b),
        (case notes' b of None \<Rightarrow> [] | Some n \<Rightarrow> n)])"

text \<open>
  The comparator of the sort. \<open>localeCompare\<close> is the platform's collation of two
  strings, which depends on the engine and its locale: it is a parameter, \<open>lc\<close>.
\<close>

definition compareBuilds ::
  "(string \<Rightarrow> string \<Rightarrow> int) \<Rightarrow> SortKey \<Rightarrow> SortDirection
     \<Rightarrow> 'a EnrichedBuild_scheme \<Rightarrow> 'a EnrichedBuild_scheme \<Rightarrow> jsnum" where
  "compareBuilds lc sortKey sortDirection a b =
     (let factor = (if sortDirection = Asc then Fin 1 else Fin (- 1))
      in if sortKey = PublishedAt then
           (let da = timestamp a; db = timestamp b in js_mul (js_sub da db) factor)
         else if sortKey = McVersion then
           js_mul (compareVersions (mcVersion a) (mcVersion b)) factor
         else js_mul (Fin (of_int (lc (jsMacrosVersion a) (jsMacrosVersion b)))) factor)"

definition search_filter :: "('b \<Rightarrow> string) \<Rightarrow> string \<Rightarrow> 'b list \<Rightarrow> 'b list" where
  "search_filter hay search bs =
     (let search_term = toLowerCase (trim search)
      in filter (\<lambda>b. if search_term = [] then True else str_includes (hay b) search_term) bs)"

definition listResults ::
  "(string \<Rightarrow> string \<Rightarrow> int) \<Rightarrow> 'a EnrichedBuild_scheme list \<Rightarrow> string \<Rightarrow> SortKey
     \<Rightarrow> SortDirection \<Rightarrow> 'a EnrichedBuild_scheme list" where
  "listResults lc bs search sortKey sortDirection =
     js_sort (compareBuilds lc sortKey sortDirection) (search_filter haystack search bs)"

text \<open>
  The later revision of the view reads two more members of an entry, which types.ts does
  not declare: \<open>sourceUrl\<close> (\<open>b.sourceUrl ?? ''\<close>, an optional string) and \<open>deprecated\<close>
  (\<open>b.deprecated ? 'deprecated' : ''\<close>, an optional boolean).
\<close>

record EnrichedBuild2 = EnrichedBuild +
  sourceUrl :: "string option"
  deprecated :: "bool option"

definition haystack2 :: "'a EnrichedBuild2_scheme \<Rightarrow> string" where
  "haystack2 b =
     toLowerCase (join '' ''
       [mcVersion b, jsMacrosVersion b, fork b, repo b,
        (case sourceUrl b of None \<Rightarrow> [] | Some u \<Rightarrow> u),
        releaseType_string (releaseType b),
        (if deprecated b = Some True then ''deprecated'' else []),
        join '' '' (map loader_string (modLoader b)),
        join '' '' (extensions b),
        (case notes' b of None \<Rightarrow> [] | Some n \<Rightarrow> n)])"

definition listResults2 ::
  "(string \<Rightarrow> string \<Rightarrow> int) \<Rightarrow> 'a EnrichedBuild2_scheme list \<Rightarrow> string \<Rightarrow> SortKey
     \<Rightarrow> SortDirection \<Rightarrow> 'a EnrichedBuild2_scheme list" where
  "listResults2 lc bs search sortKey sortDirection =
     js_sort (compareBuilds lc sortKey sortDirection) (search_filter haystack2 search bs)"

text \<open>The search as the specification words it: the fields, joined by spaces.\<close>

definition search_fields :: "'a EnrichedBuild_scheme \<Rightarrow> string list" where
  "search_fields e =
     [mcVersion e, jsMacrosVersion e, fork e, repo e, releaseType_string (releaseType e),
      join '' '' (map loader_string (modLoader e)), join '' '' (extensions e),
      (case notes' e of None \<Rightarrow> [] | Some n \<Rightarrow> n)]"

definition search_matches :: "string \<Rightarrow> 'a EnrichedBuild_scheme \<Rightarrow> bool" where
  "search_matches query e = sublist (toLowerCase query) (toLowerCase (join '' '' (search_fields e)))"

definition search_fields2 :: "'a EnrichedBuild2_scheme \<Rightarrow> string list" where
  "search_fields2 e =
     [mcVersion e, jsMacrosVersion e, fork e, repo e,
      (case sourceUrl e of None \<Rightarrow> [] | Some u \<Rightarrow> u),
      releaseType_string (releaseType e),
      (if deprecated e = Some True then ''deprecated'' else []),
      join '' '' (map loader_string (modLoader e)), join '' '' (extensions e),
      (case notes' e of None \<Rightarrow> [] | Some n \<Rightarrow> n)]"

section \<open>scripts/validate.ts: main\<close>

text \<open>
  What the process leaves behind: its exit code (0 unless \<open>process.exitCode\<close> is set) and
  the lines written to the error stream and to the output stream.
\<close>

record outcome =
  exitCode :: nat
  stderr :: "string list"
  stdout :: "string list"

text \<open>
  The result of \<open>dataSchema.safeParse\<close>: the issues, each a path and a message, or the
  catalog, which then has the shape of the schema.
\<close>

datatype safe_parse = ParseFailure "(string list \<times> string) list" | ParseSuccess BuildsData

text \<open>The inner loop over the builds of one version, with the set of ids seen so far.\<close>

fun check_builds :: "string set \<Rightarrow> string \<Rightarrow> Build list \<Rightarrow> (string \<times> string) + string set" where
  "check_builds ids mcVersion' [] = Inr ids"
| "check_builds ids mcVersion' (build # rest) =
     (if build_id build \<in> ids then Inl (build_id build, mcVersion')
      else check_builds (insert (build_id build) ids) mcVersion' rest)"

text \<open>The outer loop over the entries: the first duplicate id and the version it is under.\<close>

fun check_versions :: "string set \<Rightarrow> (string \<times> Build list) list \<Rightarrow> (string \<times> string) option" where
  "check_versions ids [] = None"
| "check_versions ids ((mcVersion', bs) # rest) =
     (case check_builds ids mcVersion' bs of
        Inl dup \<Rightarrow> Some dup
      | Inr ids' \<Rightarrow> check_versions ids' rest)"

definition duplicate_message :: "string \<Rightarrow> string \<Rightarrow> string \<Rightarrow> string" where
  "duplicate_message base ident mcVersion' =
     ''Validation failed for '' @ base @ '': Duplicate build id \"'' @ ident @
     ''\" for Minecraft version '' @ mcVersion'"

text \<open>
  \<open>main\<close> after the file is read and parsed; \<open>base\<close> is \<open>basename(file)\<close>. An issue with
  an empty path is printed under \<open><root>\<close>.
\<close>

definition main :: "string \<Rightarrow> safe_parse \<Rightarrow> outcome" where
  "main base result =
     (case result of
        ParseFailure errs \<Rightarrow>
          \<lparr>exitCode = 1,
           stderr = (''Validation failed for '' @ base @ '':'') #
             map (\<lambda>(path, msg).
               ''- '' @ (if join ''.'' path = [] then ''<root>'' else join ''.'' path) @ '': '' @ msg) errs,
           stdout = []\<rparr>
      | ParseSuccess d \<Rightarrow>
          (case check_versions {} (case versions d of None \<Rightarrow> [] | Some vs \<Rightarrow> vs) of
             Some (ident, mcVersion') \<Rightarrow>
               \<lparr>exitCode = 1, stderr = [duplicate_message base ident mcVersion'], stdout = []\<rparr>
           | None \<Rightarrow> \<lparr>exitCode = 0, stderr = [], stdout = [base @ '' is valid.'']\<rparr>))"

text \<open>
  The ids of a catalog in the order of the traversal, each with the version it is under,
  and the first duplicate among them: the first id that an earlier build already has.
\<close>

definition tagged_ids :: "(string \<times> Build list) list \<Rightarrow> (string \<times> string) list" where
  "tagged_ids entries = concat (map (\<lambda>(v, bs). map (\<lambda>b. (build_id b, v)) bs) entries)"

definition is_first_duplicate :: "(string \<times> string) list \<Rightarrow> string \<times> string \<Rightarrow> bool" where
  "is_first_duplicate tagged d =
     (\<exists>pre post. tagged = pre @ d # post \<and> distinct (map fst pre) \<and> fst d \<in> fst ` set pre)"

definition search_matches2 :: "string \<Rightarrow> 'a EnrichedBuild2_scheme \<Rightarrow> bool" where
  "search_matches2 query e = sublist (toLowerCase query) (toLowerCase (join '' '' (search_fields2 e)))"

text \<open>
  The order of a sorted result by date: every entry without a date stands before every
  entry whose date is after 1970-01-01, the day of timestamp 0.
\<close>

definition undated_first :: "'a EnrichedBuild_scheme list \<Rightarrow> bool" where
  "undated_first r =
     (\<forall>i j. i < length r \<and> j < length r \<and> publishedAt (r ! i) = None \<and> js_gt0 (timestamp (r ! j))
        \<longrightarrow> i < j)"

text \<open>Every date that is present is a calendar date.\<close>

definition dates_valid :: "'a EnrichedBuild_scheme list \<Rightarrow> bool" where
  "dates_valid bs = list_all (\<lambda>e. timestamp e \<noteq> NaN) bs"

text \<open>The catalog that \<open>main\<close> and \<open>loadBuilds\<close> traverse: \<open>versions || {}\<close>.\<close>

definition entries_of :: "BuildsData \<Rightarrow> (string \<times> Build list) list" where
  "entries_of d = (case versions d of None \<Rightarrow> [] | Some vs \<Rightarrow> vs)"

section \<open>Auxiliary notions for the proofs\<close>

text \<open>
  The values of the doubles are multiples of \<open>2^-1074\<close>; a number that is not NaN is an
  infinity or such a value.
\<close>

definition on_grid :: "rat \<Rightarrow> bool" where
  "on_grid q = (\<exists>j::int. q = of_int j / 2 ^ 1074)"

definition js_double :: "jsnum \<Rightarrow> bool" where
  "js_double x = (case x of NaN \<Rightarrow> False | Fin q \<Rightarrow> on_grid q | _ \<Rightarrow> True)"

text \<open>The value of a finite number.\<close>

definition fin_value :: "jsnum \<Rightarrow> rat" where
  "fin_value x = (case x of Fin r \<Rightarrow> r | _ \<Rightarrow> 0)"

text \<open>A comparison of strings by their character codes.\<close>

definition code_unit_compare :: "string \<Rightarrow> string \<Rightarrow> int" where
  "code_unit_compare x y = (if x < y then - 1 else if y < x then 1 else 0)"

text \<open>
  A model of the engine's default collation on strings of ASCII letters, digits, dots and
  hyphens: two strings are compared without regard to case first, letter by letter, and
  by case, lower case first, when that makes no difference.
\<close>

definition collation_compare :: "string \<Rightarrow> string \<Rightarrow> int" where
  "collation_compare x y =
     (let px = map lower_char x; py = map lower_char y
      in if px < py then - 1 else if py < px then 1
         else if y < x then - 1 else if x < y then 1 else 0)"

text \<open>
  A comparator is consistent on a set of strings when its sign is antisymmetric and
  "not after" is transitive there: what \<open>sort\<close> needs of a comparator, and what a collation
  gives.
\<close>

definition consistent_on :: "(string \<Rightarrow> string \<Rightarrow> int) \<Rightarrow> string set \<Rightarrow> bool" where
  "consistent_on lc S =
     ((\<forall>x\<in>S. \<forall>y\<in>S. (lc x y < 0) = (0 < lc y x)) \<and>
      (\<forall>x\<in>S. \<forall>y\<in>S. \<forall>z\<in>S. lc x y \<le> 0 \<and> lc y z \<le> 0 \<longrightarrow> lc x z \<le> 0))"

section \<open>Sample data\<close>

text \<open>The two builds of the sample catalog of the plan, and variations of them.\<close>

definition sample_build_1 :: Build where
  "sample_build_1 =
     \<lparr>build_id = ''jsmacros-2.1.0-1.19.1-fabric'', repo = ''JsMacros/JsMacros'',
      fork = ''JsMacros'', commit = ''0a1b2c3'', jsMacrosVersion = ''2.1.0'',
      modLoader = [Fabric], extensions = [''luaj'', ''js'', ''jython''],
      downloads =
        [\<lparr>download_name = ''jsmacros-2.1.0-1.19.1-fabric.jar'',
          download_platform = OnePlatform PlatformFabric,
          download_url = ''https://example.org/jsmacros-2.1.0-1.19.1-fabric.jar'',
          download_checksum = Some ''sha256:00'', download_notes = Some ''Optional field''\<rparr>],
      releaseType = Release, status = Some Supported, publishedAt = Some ''2024-12-10'',
      notes' = Some ''Requires Fabric API >= 0.102''\<rparr>"

definition sample_build_2 :: Build where
  "sample_build_2 =
     \<lparr>build_id = ''jsmacros-2.1.0-1.21.1-fabric'', repo = ''JsMacros/JsMacros'',
      fork = ''JsMacros'', commit = ''4d5e6f7'', jsMacrosVersion = ''2.1.0'',
      modLoader = [Fabric], extensions = [''luaj'', ''js'', ''jython''],
      downloads =
        [\<lparr>download_name = ''jsmacros-2.1.0-1.21.1-fabric.jar'',
          download_platform = OnePlatform PlatformFabric,
          download_url = ''https://example.org/jsmacros-2.1.0-1.21.1-fabric.jar'',
          download_checksum = Some ''sha256:01'', download_notes = None\<rparr>],
      releaseType = Release, status = Some Supported, publishedAt = Some ''2024-12-20'',
      notes' = None\<rparr>"

definition sample_catalog :: BuildsData where
  "sample_catalog =
     \<lparr>updatedAt = ''2025-01-05'',
      versions = Some [(''1.19.1'', [sample_build_1]), (''1.21.1'', [sample_build_2])]\<rparr>"

text \<open>A build with the extension luaj only, one without a date, and one dated before 1970.\<close>

definition luaj_build :: Build where
  "luaj_build = sample_build_2\<lparr>build_id := ''jsmacros-2.0.0-1.21.1-forge'',
     jsMacrosVersion := ''2.0.0'', modLoader := [Forge], extensions := [''luaj'']\<rparr>"

definition undated_build :: Build where
  "undated_build = sample_build_2\<lparr>build_id := ''jsmacros-2.10.0-1.21.1-fabric'',
     jsMacrosVersion := ''2.10.0'', publishedAt := None\<rparr>"

definition old_build :: Build where
  "old_build = sample_build_1\<lparr>build_id := ''jsmacros-2.9.0-1.19.1-fabric'',
     jsMacrosVersion := ''2.9.0'', publishedAt := Some ''1969-12-31''\<rparr>"

text \<open>Two pre-releases, one named in capitals.\<close>

definition rc_build :: Build where
  "rc_build = sample_build_2\<lparr>build_id := ''jsmacros-1.0.0-RC1-1.21.1-fabric'',
     jsMacrosVersion := ''1.0.0-RC1'', releaseType := Beta\<rparr>"

definition beta_build :: Build where
  "beta_build = sample_build_2\<lparr>build_id := ''jsmacros-1.0.0-beta-1.21.1-fabric'',
     jsMacrosVersion := ''1.0.0-beta'', releaseType := Beta\<rparr>"

text \<open>A catalog in which a build of the second group repeats an id of the first.\<close>

definition duplicate_catalog :: BuildsData where
  "duplicate_catalog =
     \<lparr>updatedAt = ''2025-01-05'',
      versions = Some [(''1.19.1'', [sample_build_1]),
                       (''1.21.1'', [sample_build_2, sample_build_1, sample_build_2])]\<rparr>"

section \<open>Properties of the numbers\<close>

lemma on_grid_0: "on_grid 0"
  unfolding on_grid_def by (rule exI[of _ 0]) simp

lemma on_grid_of_int: "on_grid (of_int i)"
  unfolding on_grid_def by (rule exI[of _ "i * 2 ^ 1074"]) simp

lemma on_grid_minus: "on_grid q \<Longrightarrow> on_grid (- q)"
  unfolding on_grid_def
proof -
  assume "\<exists>j::int. q = of_int j / 2 ^ 1074"
  then obtain j :: int where "q = of_int j / 2 ^ 1074" by blast
  then have "- q = of_int (- j) / 2 ^ 1074" by simp
  then show "\<exists>j::int. - q = of_int j / 2 ^ 1074" by blast
qed

lemma on_grid_diff: "on_grid p \<Longrightarrow> on_grid q \<Longrightarrow> on_grid (p - q)"
proof -
  assume "on_grid p" "on_grid q"
  then obtain i j :: int where "p = of_int i / 2 ^ 1074" "q = of_int j / 2 ^ 1074"
    unfolding on_grid_def by blast
  then have "p - q = of_int (i - j) / 2 ^ 1074"
    by (simp add: diff_divide_distrib)
  then show ?thesis unfolding on_grid_def by blast
qed

lemma on_grid_pos_ge: "on_grid q \<Longrightarrow> 0 < q \<Longrightarrow> 1 \<le> q / 2 powi (- 1074)"
proof -
  assume "on_grid q" "0 < q"
  then obtain j :: int where j: "q = of_int j / 2 ^ 1074"
    unfolding on_grid_def by blast
  with \<open>0 < q\<close> have "0 < (of_int j :: rat)"
    by (simp add: zero_less_divide_iff)
  then have "1 \<le> j" by simp
  moreover have "q / 2 powi (- 1074) = of_int j"
    unfolding j by (simp add: power_int_minus)
  ultimately show ?thesis by simp
qed

lemma on_grid_scaled:
  assumes "- 1074 \<le> k"
  shows "on_grid (of_int m * 2 powi k)"
proof -
  have "2 powi k = (2::rat) powi (k + 1074) / 2 ^ 1074"
    by (simp add: power_int_add)
  also have "(2::rat) powi (k + 1074) = 2 ^ nat (k + 1074)"
    using assms by (simp add: power_int_def)
  finally have "of_int m * 2 powi k = (of_int (m * 2 ^ nat (k + 1074)) :: rat) / 2 ^ 1074"
    by simp
  then show ?thesis unfolding on_grid_def by blast
qed

text \<open>The bound below of the logarithm.\<close>

lemma log2_floor_le:
  assumes "0 < a"
  shows "2 powi (log2_floor a) \<le> a"
proof -
  obtain n d where q: "quotient_of a = (n, d)" by (cases "quotient_of a")
  have d: "0 < d" using quotient_of_denom_pos[OF q] .
  have a: "a = of_int n / of_int d" using quotient_of_div[OF q] .
  have n: "0 < n" using assms d unfolding a by (simp add: zero_less_divide_iff)
  define e where "e = bitlen n - bitlen d"
  have l: "log2_floor a = (if 2 powi e \<le> a then e else e - 1)"
    by (simp add: log2_floor_def q e_def Let_def)
  show ?thesis
  proof (cases "2 powi e \<le> a")
    case True
    then show ?thesis by (simp add: l)
  next
    case False
    have bn: "1 \<le> bitlen n" using n by (simp add: bitlen_alt_def)
    have bd: "1 \<le> bitlen d" using d by (simp add: bitlen_alt_def)
    have "2 ^ nat (bitlen n - 1) \<le> n" using bitlen_bounds[OF n] by simp
    then have "(of_int (2 ^ nat (bitlen n - 1)) :: rat) \<le> of_int n"
      by (rule of_int_le_iff[THEN iffD2])
    then have 1: "(2::rat) powi (bitlen n - 1) \<le> of_int n"
      using bn by (simp add: power_int_def)
    have "d < 2 ^ nat (bitlen d)" using bitlen_bounds[OF d] by simp
    then have "(of_int d :: rat) < of_int (2 ^ nat (bitlen d))"
      by (rule of_int_less_iff[THEN iffD2])
    then have 2: "(of_int d :: rat) \<le> 2 powi (bitlen d)"
      using bd by (simp add: power_int_def)
    have "(2::rat) powi (e - 1) = 2 powi (bitlen n - 1) / 2 powi (bitlen d)"
      by (simp add: e_def power_int_diff)
    also have "\<dots> \<le> of_int n / of_int d"
      using 1 2 d n by (intro frac_le) simp_all
    finally have "2 powi (e - 1) \<le> a" unfolding a .
    then show ?thesis using False l by simp
  qed
qed

lemma round_half_even_ge: "1 \<le> x \<Longrightarrow> 1 \<le> round_half_even x"
proof -
  assume "1 \<le> x"
  then have "1 \<le> \<lfloor>x\<rfloor>" by simp
  then show ?thesis by (auto simp: round_half_even_def Let_def)
qed

lemma to_double_minus: "to_double (- q) = js_neg (to_double q)"
  by (auto simp: to_double_def Let_def)

lemma to_double_double: "js_double (to_double q)"
proof -
  have "- 1074 \<le> max (log2_floor \<bar>q\<bar>) (- 1022) - 52" by simp
  then show ?thesis
    by (auto simp: to_double_def Let_def js_double_def on_grid_0 on_grid_scaled on_grid_minus)
qed

lemma to_double_pos:
  assumes "on_grid q" "0 < q"
  shows "js_gt0 (to_double q)"
proof -
  define k where "k = max (log2_floor \<bar>q\<bar>) (- 1022) - 52"
  define m where "m = round_half_even (\<bar>q\<bar> / 2 powi k)"
  have aq: "\<bar>q\<bar> = q" using assms by simp
  have "1 \<le> q / 2 powi k"
  proof (cases "- 1022 \<le> log2_floor q")
    case True
    then have k: "k = log2_floor q - 52" by (simp add: k_def aq)
    have "(2::rat) powi k \<le> 2 powi (log2_floor q)"
      unfolding k by (rule power_int_increasing) simp_all
    also have "\<dots> \<le> q" using assms(2) by (rule log2_floor_le)
    finally show ?thesis by (simp add: le_divide_eq)
  next
    case False
    then have k: "k = - 1074" by (simp add: k_def aq)
    show ?thesis unfolding k using assms by (rule on_grid_pos_ge)
  qed
  then have m: "1 \<le> m" unfolding m_def aq by (rule round_half_even_ge)
  then have p: "0 < (of_int m :: rat) * 2 powi k" by simp
  have "to_double q =
      (if 971 < k \<or> (k = 971 \<and> 2 ^ 53 \<le> m) then PosInf else Fin (of_int m * 2 powi k))"
    unfolding to_double_def Let_def k_def m_def aq
    using assms(2) by (simp only: less_irrefl[of 0] order.strict_implies_not_eq[OF assms(2), symmetric, THEN not_sym, THEN not_sym] if_False if_True)
  then show ?thesis using p by (cases "971 < k \<or> (k = 971 \<and> 2 ^ 53 \<le> m)") simp_all
qed

lemma to_double_sign:
  assumes "on_grid q"
  shows "js_gt0 (to_double q) = (0 < q)" and "js_lt0 (to_double q) = (q < 0)"
proof -
  consider "0 < q" | "q = 0" | "q < 0" by linarith
  then have "js_gt0 (to_double q) = (0 < q) \<and> js_lt0 (to_double q) = (q < 0)"
  proof cases
    case 1
    then have "js_gt0 (to_double q)" using assms to_double_pos by simp
    with 1 show ?thesis by (cases "to_double q") auto
  next
    case 2
    then show ?thesis by (simp add: to_double_def)
  next
    case 3
    then have "js_gt0 (to_double (- q))" using on_grid_minus[OF assms] to_double_pos by simp
    moreover have "to_double q = js_neg (to_double (- q))"
      using to_double_minus[of "- q"] by simp
    ultimately show ?thesis using 3 by (cases "to_double (- q)") auto
  qed
  then show "js_gt0 (to_double q) = (0 < q)" and "js_lt0 (to_double q) = (q < 0)" by simp_all
qed

lemma log2_floor_less:
  assumes "0 < a"
  shows "a < 2 powi (log2_floor a + 1)"
proof -
  obtain n d where q: "quotient_of a = (n, d)" by (cases "quotient_of a")
  have d: "0 < d" using quotient_of_denom_pos[OF q] .
  have a: "a = of_int n / of_int d" using quotient_of_div[OF q] .
  have n: "0 < n" using assms d unfolding a by (simp add: zero_less_divide_iff)
  define e where "e = bitlen n - bitlen d"
  have l: "log2_floor a = (if 2 powi e \<le> a then e else e - 1)"
    by (simp add: log2_floor_def q e_def Let_def)
  show ?thesis
  proof (cases "2 powi e \<le> a")
    case False
    then show ?thesis by (simp add: l)
  next
    case True
    have bn: "1 \<le> bitlen n" using n by (simp add: bitlen_alt_def)
    have bd: "1 \<le> bitlen d" using d by (simp add: bitlen_alt_def)
    have "n < 2 ^ nat (bitlen n)" using bitlen_bounds[OF n] by simp
    then have "(of_int n :: rat) < of_int (2 ^ nat (bitlen n))"
      by (rule of_int_less_iff[THEN iffD2])
    then have 1: "(of_int n :: rat) < 2 powi (bitlen n)"
      using bn by (simp add: power_int_def)
    have "2 ^ nat (bitlen d - 1) \<le> d" using bitlen_bounds[OF d] by simp
    then have "(of_int (2 ^ nat (bitlen d - 1)) :: rat) \<le> of_int d"
      by (rule of_int_le_iff[THEN iffD2])
    then have 2: "(2::rat) powi (bitlen d - 1) \<le> of_int d"
      using bd by (simp add: power_int_def)
    have "of_int n / of_int d < (2::rat) powi (bitlen n) / 2 powi (bitlen d - 1)"
      using 1 2 d n by (intro frac_less) simp_all
    also have "\<dots> = 2 powi (bitlen n - (bitlen d - 1))"
      by (rule power_int_diff[symmetric]) simp
    also have "bitlen n - (bitlen d - 1) = e + 1"
      by (simp add: e_def)
    finally have "a < 2 powi (e + 1)" unfolding a .
    then show ?thesis using True l by simp
  qed
qed

lemma to_double_of_pos:
  assumes "0 < q"
  shows "to_double q =
     (if 971 < max (log2_floor q) (- 1022) - 52 \<or>
         (max (log2_floor q) (- 1022) - 52 = 971 \<and>
          2 ^ 53 \<le> round_half_even (q / 2 powi (max (log2_floor q) (- 1022) - 52)))
      then PosInf
      else Fin (of_int (round_half_even (q / 2 powi (max (log2_floor q) (- 1022) - 52))) *
                2 powi (max (log2_floor q) (- 1022) - 52)))"
proof -
  have aq: "\<bar>q\<bar> = q" using assms by simp
  show ?thesis
    unfolding to_double_def Let_def aq
    using assms by (simp only: order.strict_implies_not_eq[OF assms, symmetric, THEN not_sym, THEN not_sym] if_False if_True)
qed

lemma to_double_overflow:
  assumes "2 ^ 1024 \<le> q"
  shows "to_double q = PosInf"
proof -
  have q: "0 < q" using assms by (rule less_le_trans[rotated]) simp
  have "(2::rat) powi 1024 \<le> q" using assms by simp
  also have "q < 2 powi (log2_floor q + 1)" using q by (rule log2_floor_less)
  finally have lt: "(2::rat) powi 1024 < 2 powi (log2_floor q + 1)" .
  have "1024 < log2_floor q + 1"
  proof (rule ccontr)
    assume "\<not> 1024 < log2_floor q + 1"
    then have "(2::rat) powi (log2_floor q + 1) \<le> 2 powi 1024"
      by (intro power_int_increasing) simp_all
    with lt show False by simp
  qed
  then have k: "971 < max (log2_floor q) (- 1022) - 52" by simp
  show ?thesis
    unfolding to_double_of_pos[OF q] using k by (simp only: simp_thms if_True)
qed

lemma js_double_not_NaN: "js_double x \<Longrightarrow> x \<noteq> NaN"
  by (auto simp: js_double_def)

lemma js_double_neg: "js_double x \<Longrightarrow> js_double (js_neg x)"
  by (cases x) (auto simp: js_double_def on_grid_minus)

lemma js_double_of_int: "js_double (Fin (of_int i))"
  by (simp add: js_double_def on_grid_of_int)

lemma js_double_zero: "js_double (Fin 0)"
  by (simp add: js_double_def on_grid_0)

lemma js_double_PosInf: "js_double PosInf"
  by (simp add: js_double_def)

lemma unsigned_decimal_double: "unsigned_decimal s = NaN \<or> js_double (unsigned_decimal s)"
  by (auto simp: unsigned_decimal_def Let_def to_double_double js_double_PosInf
      split: option.splits list.splits)

lemma radix_literal_double: "radix_literal t = Some v \<Longrightarrow> v = NaN \<or> js_double v"
  by (auto simp: radix_literal_def to_double_double split: list.splits if_splits option.splits)

lemma Number_double: "Number s = NaN \<or> js_double (Number s)"
proof (cases "trim s = []")
  case True
  then show ?thesis by (simp add: Number_def js_double_zero)
next
  case False
  then obtain c cs where t: "trim s = c # cs" by (cases "trim s") auto
  show ?thesis
  proof (cases "radix_literal (trim s)")
    case (Some v)
    then show ?thesis
      using radix_literal_double[OF Some] False by (simp add: Number_def)
  next
    case None
    have "js_neg (unsigned_decimal cs) = NaN \<or> js_double (js_neg (unsigned_decimal cs))"
      using unsigned_decimal_double[of cs] js_double_neg[of "unsigned_decimal cs"] by auto
    then show ?thesis
      using None t unsigned_decimal_double[of cs] unsigned_decimal_double[of "c # cs"]
      by (auto simp: Number_def)
  qed
qed

lemma or_zero_double: "x = NaN \<or> js_double x \<Longrightarrow> js_double (or_zero x)"
  by (auto simp: or_zero_def js_double_zero)

lemma js_sub_double: "js_double x \<Longrightarrow> js_double y \<Longrightarrow> x \<noteq> y \<Longrightarrow> js_double (js_sub x y)"
  by (cases x; cases y) (simp_all add: to_double_double, simp_all add: js_double_def)

lemma js_mul_one: "js_double x \<Longrightarrow> js_gt0 (js_mul x (Fin 1)) = js_gt0 x"
  by (cases x) (simp_all add: js_double_def to_double_sign)

lemma js_mul_minus_one: "js_double x \<Longrightarrow> js_gt0 (js_mul x (Fin (- 1))) = js_lt0 x"
  by (cases x) (simp_all add: js_double_def to_double_sign on_grid_minus)

section \<open>Properties of compareVersions\<close>

lemma or_zero_not_NaN: "or_zero x \<noteq> NaN"
  by (simp add: or_zero_def)

lemma components_not_NaN: "x \<in> set (components a) \<Longrightarrow> x \<noteq> NaN"
  by (auto simp: components_def or_zero_not_NaN)

lemma components_double: "x \<in> set (components a) \<Longrightarrow> js_double x"
  by (auto simp: components_def intro!: or_zero_double Number_double)

lemma pad_components_double: "x \<in> set (pad_zero n (components a)) \<Longrightarrow> js_double x"
  by (auto simp: pad_zero_def components_double js_double_zero)

lemma at_or_zero_not_NaN: "NaN \<notin> set ap \<Longrightarrow> at_or_zero ap i \<noteq> NaN"
  by (auto simp: at_or_zero_def) (metis nth_mem)

lemma components_eq_numeric: "components a = numeric_components a"
  by (simp add: components_def numeric_components_def is_numeric_def or_zero_def)

lemma js_sub_neg: "js_sub x y = js_neg (js_sub y x)"
proof (cases x)
  case (Fin p)
  show ?thesis
  proof (cases y)
    case (Fin q)
    have "to_double (p - q) = js_neg (to_double (q - p))"
      using to_double_minus[of "q - p"] by simp
    then show ?thesis unfolding \<open>x = Fin p\<close> Fin by simp
  qed (simp_all add: \<open>x = Fin p\<close>)
qed (cases y; simp)+

lemma js_sub_not_NaN: "js_double x \<Longrightarrow> js_double y \<Longrightarrow> x \<noteq> y \<Longrightarrow> js_sub x y \<noteq> NaN"
  using js_sub_double[of x y] js_double_not_NaN by blast

lemma js_sub_lt0: "js_double x \<Longrightarrow> js_double y \<Longrightarrow> x \<noteq> y \<Longrightarrow> js_lt0 (js_sub x y) = js_lt x y"
  by (cases x; cases y) (simp_all add: js_double_def to_double_sign on_grid_diff)

lemma js_sub_gt0: "js_double x \<Longrightarrow> js_double y \<Longrightarrow> x \<noteq> y \<Longrightarrow> js_gt0 (js_sub x y) = js_lt y x"
  by (cases x; cases y) (simp_all add: js_double_def to_double_sign on_grid_diff)

lemma js_lt_total: "x \<noteq> NaN \<Longrightarrow> y \<noteq> NaN \<Longrightarrow> x \<noteq> y \<Longrightarrow> js_lt x y \<or> js_lt y x"
  by (cases x; cases y) auto

lemma js_lt_asym: "js_lt x y \<Longrightarrow> \<not> js_lt y x"
  by (cases x; cases y) auto

lemma js_lt_trans: "js_lt x y \<Longrightarrow> js_lt y z \<Longrightarrow> js_lt x z"
  by (cases x; cases y; cases z) auto

lemma js_lt_irrefl: "\<not> js_lt x x"
  by (cases x) auto

lemma pad_zero_nth: "i < n \<Longrightarrow> length xs \<le> n \<Longrightarrow> pad_zero n xs ! i = at_or_zero xs i"
  by (simp add: pad_zero_def at_or_zero_def nth_append)

lemma length_pad_zero: "length xs \<le> n \<Longrightarrow> length (pad_zero n xs) = n"
  by (simp add: pad_zero_def)

text \<open>The loop from index i is the search for the first differing pair in the padded lists.\<close>

lemma compare_loop_find:
  assumes "NaN \<notin> set ap" "NaN \<notin> set bp" "length ap \<le> len" "length bp \<le> len"
  shows "i \<le> len \<Longrightarrow> compare_loop ap bp len i =
     (case find (\<lambda>(x, y). x \<noteq> y) (drop i (zip (pad_zero len ap) (pad_zero len bp))) of
        Some (x, y) \<Rightarrow> js_sub x y
      | None \<Rightarrow> Fin (of_int (int (length ap) - int (length bp))))"
proof (induction "len - i" arbitrary: i)
  case 0
  then have "i = len" by simp
  then show ?case
    using assms by (simp add: compare_loop.simps[of ap bp len len] length_pad_zero)
next
  case (Suc k)
  let ?zs = "zip (pad_zero len ap) (pad_zero len bp)"
  from Suc.hyps(2) have lt: "i < len" by simp
  have len: "length ?zs = len"
    using assms by (simp add: length_pad_zero)
  have hd: "?zs ! i = (at_or_zero ap i, at_or_zero bp i)"
    using lt assms by (simp add: length_pad_zero pad_zero_nth)
  have dr: "drop i ?zs = (at_or_zero ap i, at_or_zero bp i) # drop (Suc i) ?zs"
    using lt len hd by (metis Cons_nth_drop_Suc)
  have ne: "js_strict_ne (at_or_zero ap i) (at_or_zero bp i) = (at_or_zero ap i \<noteq> at_or_zero bp i)"
    using assms by (simp add: js_strict_ne_def at_or_zero_not_NaN)
  have ih: "compare_loop ap bp len (Suc i) =
     (case find (\<lambda>(x, y). x \<noteq> y) (drop (Suc i) ?zs) of
        Some (x, y) \<Rightarrow> js_sub x y
      | None \<Rightarrow> Fin (of_int (int (length ap) - int (length bp))))"
    using Suc.hyps lt by (intro Suc.hyps(1)) simp_all
  show ?case
    using lt ne ih by (simp add: compare_loop.simps[of ap bp len i] dr)
qed

lemma compareVersions_find:
  "compareVersions a b =
     (let ap = components a; bp = components b; n = max (length ap) (length bp)
      in case find (\<lambda>(x, y). x \<noteq> y) (zip (pad_zero n ap) (pad_zero n bp)) of
        Some (x, y) \<Rightarrow> js_sub x y
      | None \<Rightarrow> Fin (of_int (int (length ap) - int (length bp))))"
proof -
  have a: "NaN \<notin> set (components a)" "NaN \<notin> set (components b)"
    using components_not_NaN by blast+
  show ?thesis
    unfolding compareVersions_def Let_def
    using compare_loop_find[OF a, of "max (length (components a)) (length (components b))" 0]
    by simp
qed

lemma find_pair_props:
  "find (\<lambda>(x, y). x \<noteq> y) zs = Some (x, y) \<Longrightarrow> (x, y) \<in> set zs \<and> x \<noteq> y"
  by (induction zs) (auto split: if_splits)

lemma pad_zero_not_NaN: "NaN \<notin> set xs \<Longrightarrow> NaN \<notin> set (pad_zero n xs)"
  by (auto simp: pad_zero_def)

lemma sign_of_sub:
  "js_double x \<Longrightarrow> js_double y \<Longrightarrow> x \<noteq> y \<Longrightarrow> sign_of (js_sub x y) = (if js_lt x y then LT else GT)"
  using js_lt_total[of x y] js_lt_asym[of x y] js_double_not_NaN[of x] js_double_not_NaN[of y]
  by (auto simp: sign_of_def js_sub_lt0 js_sub_gt0)

lemma sign_of_length:
  "sign_of (Fin (of_int (int m - int n))) = (if m < n then LT else if n < m then GT else EQ)"
  by (simp add: sign_of_def)

lemma compareVersions_sign: "sign_of (compareVersions a b) = compare_spec a b"
proof -
  define ap where "ap = components a"
  define bp where "bp = components b"
  define n where "n = max (length ap) (length bp)"
  define zs where "zs = zip (pad_zero n ap) (pad_zero n bp)"
  have a: "NaN \<notin> set (pad_zero n ap)" "NaN \<notin> set (pad_zero n bp)"
    unfolding ap_def bp_def using components_not_NaN pad_zero_not_NaN by blast+
  have code: "compareVersions a b =
      (case find (\<lambda>(x, y). x \<noteq> y) zs of
        Some (x, y) \<Rightarrow> js_sub x y
      | None \<Rightarrow> Fin (of_int (int (length ap) - int (length bp))))"
    unfolding zs_def n_def ap_def bp_def compareVersions_find Let_def by (rule refl)
  have spec: "compare_spec a b =
      (case find (\<lambda>(x, y). x \<noteq> y) zs of
        Some (x, y) \<Rightarrow> if js_lt x y then LT else GT
      | None \<Rightarrow> if length ap < length bp then LT else if length bp < length ap then GT else EQ)"
    unfolding zs_def n_def ap_def bp_def compare_spec_def components_eq_numeric Let_def
    by (rule refl)
  show ?thesis
  proof (cases "find (\<lambda>(x, y). x \<noteq> y) zs")
    case None
    have c: "compareVersions a b = Fin (of_int (int (length ap) - int (length bp)))"
      unfolding code None by simp
    have s: "compare_spec a b =
        (if length ap < length bp then LT else if length bp < length ap then GT else EQ)"
      unfolding spec None by simp
    show ?thesis
      unfolding c s by (rule sign_of_length)
  next
    case (Some p)
    obtain x y where p: "p = (x, y)" by (cases p)
    have f: "find (\<lambda>(x, y). x \<noteq> y) zs = Some (x, y)"
      using Some p by simp
    have m: "(x, y) \<in> set zs" and "x \<noteq> y"
      using find_pair_props[OF f] by simp_all
    have xm: "x \<in> set (pad_zero n ap)" and ym: "y \<in> set (pad_zero n bp)"
      using m unfolding zs_def by (rule set_zip_leftD, rule set_zip_rightD)
    have "js_double x" using xm unfolding ap_def by (rule pad_components_double)
    have "js_double y" using ym unfolding bp_def by (rule pad_components_double)
    have c: "compareVersions a b = js_sub x y"
      unfolding code Some p by simp
    have s: "compare_spec a b = (if js_lt x y then LT else GT)"
      unfolding spec Some p by simp
    show ?thesis
      unfolding c s using \<open>js_double x\<close> \<open>js_double y\<close> \<open>x \<noteq> y\<close> by (rule sign_of_sub)
  qed
qed

lemma num_key_inj: "num_key x = num_key y \<longleftrightarrow> x = y"
  by (cases x; cases y) (simp_all add: num_key_def)

lemma num_key_less: "x \<noteq> NaN \<Longrightarrow> y \<noteq> NaN \<Longrightarrow> num_key x < num_key y \<longleftrightarrow> js_lt x y"
  by (cases x; cases y) (simp_all add: num_key_def)

lemma find_diff_None: "length xs = length ys \<Longrightarrow>
    find (\<lambda>(x, y). x \<noteq> y) (zip xs ys) = None \<longleftrightarrow> xs = ys"
  by (induction xs ys rule: list_induct2) auto

lemma find_diff_Some:
  "length xs = length ys \<Longrightarrow> NaN \<notin> set xs \<Longrightarrow> NaN \<notin> set ys \<Longrightarrow>
   find (\<lambda>(x, y). x \<noteq> y) (zip xs ys) = Some (x, y) \<Longrightarrow>
   (map num_key xs < map num_key ys) = js_lt x y \<and> (map num_key ys < map num_key xs) = js_lt y x"
proof (induction xs ys rule: list_induct2)
  case Nil
  then show ?case by simp
next
  case (Cons u us v vs)
  show ?case
  proof (cases "u = v")
    case True
    with Cons show ?thesis by simp
  next
    case False
    with Cons.prems have "x = u" "y = v" "u \<noteq> NaN" "v \<noteq> NaN" by auto
    with False show ?thesis
      by (simp add: num_key_inj num_key_less)
  qed
qed

lemma append_same_less:
  fixes xs ys :: "('a::linorder) list"
  shows "length xs = length ys \<Longrightarrow> (xs @ zs < ys @ zs) = (xs < ys)"
  by (induction xs ys rule: list_induct2) auto

lemma pad_zero_split:
  "length xs \<le> m \<Longrightarrow> m \<le> n \<Longrightarrow> pad_zero n xs = pad_zero m xs @ replicate (n - m) (Fin 0)"
  by (simp add: pad_zero_def flip: replicate_add)

lemma version_key_split:
  "length (components a) \<le> m \<Longrightarrow> m \<le> n \<Longrightarrow>
   version_key n a = version_key m a @ replicate (n - m) (num_key (Fin 0))"
  by (simp add: version_key_def pad_zero_split[of _ m n])

lemma length_version_key: "length (components a) \<le> m \<Longrightarrow> length (version_key m a) = m"
  by (simp add: version_key_def length_pad_zero)

lemma version_key_less_mono:
  assumes "length (components a) \<le> m" "length (components b) \<le> m" "m \<le> n"
  shows "(version_key n a < version_key n b) = (version_key m a < version_key m b)"
    and "(version_key n a = version_key n b) = (version_key m a = version_key m b)"
  using assms by (simp_all add: version_key_split[of _ m n] append_same_less length_version_key)

lemma compare_spec_key0:
  "compare_spec a b = key_order (max (length (components a)) (length (components b))) a b"
proof -
  define m where "m = max (length (components a)) (length (components b))"
  define xs where "xs = pad_zero m (components a)"
  define ys where "ys = pad_zero m (components b)"
  have len: "length xs = length ys"
    by (simp add: xs_def ys_def m_def length_pad_zero)
  have nn: "NaN \<notin> set xs" "NaN \<notin> set ys"
    unfolding xs_def ys_def using components_not_NaN pad_zero_not_NaN by (metis, metis)
  have spec: "compare_spec a b =
      (case find (\<lambda>(x, y). x \<noteq> y) (zip xs ys) of
        Some (x, y) \<Rightarrow> if js_lt x y then LT else GT
      | None \<Rightarrow> if length (components a) < length (components b) then LT
                else if length (components b) < length (components a) then GT else EQ)"
    unfolding xs_def ys_def m_def compare_spec_def components_eq_numeric Let_def
    by (rule refl)
  have keys: "version_key m a = map num_key xs" "version_key m b = map num_key ys"
    by (simp_all add: version_key_def xs_def ys_def)
  have "compare_spec a b = key_order m a b"
  proof (cases "find (\<lambda>(x, y). x \<noteq> y) (zip xs ys)")
    case None
    then have "xs = ys" using find_diff_None[OF len] by simp
    then show ?thesis
      unfolding spec None key_order_def keys by simp
  next
    case (Some p)
    obtain x y where p: "p = (x, y)" by (cases p)
    have f: "find (\<lambda>(x, y). x \<noteq> y) (zip xs ys) = Some (x, y)"
      using Some p by simp
    have m: "(x, y) \<in> set (zip xs ys)" and ne: "x \<noteq> y"
      using find_pair_props[OF f] by simp_all
    have "x \<in> set xs" "y \<in> set ys"
      using m by (rule set_zip_leftD, rule set_zip_rightD)
    then have "x \<noteq> NaN" "y \<noteq> NaN"
      using nn by (metis, metis)
    then have tot: "js_lt x y \<or> js_lt y x"
      using ne js_lt_total by simp
    have k: "(map num_key xs < map num_key ys) = js_lt x y"
            "(map num_key ys < map num_key xs) = js_lt y x"
      using find_diff_Some[OF len nn f] by simp_all
    show ?thesis
      unfolding spec f key_order_def keys k using tot js_lt_asym[of x y] by auto
  qed
  then show ?thesis unfolding m_def .
qed

lemma key_order_mono:
  assumes "length (components a) \<le> m" "length (components b) \<le> m" "m \<le> n"
  shows "key_order n a b = key_order m a b"
  unfolding key_order_def
  using version_key_less_mono(1)[OF assms] version_key_less_mono(1)[OF assms(2) assms(1) assms(3)]
  by simp

lemma compareVersions_key:
  assumes "length (components a) \<le> n" "length (components b) \<le> n"
  shows "sign_of (compareVersions a b) = key_order n a b"
proof -
  let ?m = "max (length (components a)) (length (components b))"
  have "key_order n a b = key_order ?m a b"
    using assms by (intro key_order_mono) simp_all
  then show ?thesis
    by (simp add: compareVersions_sign compare_spec_key0)
qed

lemma find_diff_swap:
  "length xs = length ys \<Longrightarrow>
   find (\<lambda>(x, y). x \<noteq> y) (zip ys xs) = map_option prod.swap (find (\<lambda>(x, y). x \<noteq> y) (zip xs ys))"
  by (induction xs ys rule: list_induct2) auto

lemma compareVersions_swap: "compareVersions b a = js_neg (compareVersions a b) \<and> compareVersions a b \<noteq> NaN"
proof -
  define ap where "ap = components a"
  define bp where "bp = components b"
  define n where "n = max (length ap) (length bp)"
  define xs where "xs = pad_zero n ap"
  define ys where "ys = pad_zero n bp"
  have len: "length xs = length ys"
    by (simp add: xs_def ys_def n_def length_pad_zero)
  have nn: "NaN \<notin> set xs" "NaN \<notin> set ys"
    unfolding xs_def ys_def ap_def bp_def using components_not_NaN pad_zero_not_NaN by (metis, metis)
  have ab: "compareVersions a b =
      (case find (\<lambda>(x, y). x \<noteq> y) (zip xs ys) of
        Some (x, y) \<Rightarrow> js_sub x y
      | None \<Rightarrow> Fin (of_int (int (length ap) - int (length bp))))"
    unfolding xs_def ys_def n_def ap_def bp_def compareVersions_find Let_def by (rule refl)
  have n': "n = max (length bp) (length ap)"
    by (simp add: n_def max.commute)
  have ba: "compareVersions b a =
      (case find (\<lambda>(x, y). x \<noteq> y) (zip ys xs) of
        Some (x, y) \<Rightarrow> js_sub x y
      | None \<Rightarrow> Fin (of_int (int (length bp) - int (length ap))))"
    unfolding xs_def ys_def n' ap_def bp_def compareVersions_find Let_def by (rule refl)
  show ?thesis
  proof (cases "find (\<lambda>(x, y). x \<noteq> y) (zip xs ys)")
    case None
    then have "find (\<lambda>(x, y). x \<noteq> y) (zip ys xs) = None"
      using find_diff_swap[OF len] by simp
    with None show ?thesis
      unfolding ab ba by simp
  next
    case (Some p)
    obtain x y where p: "p = (x, y)" by (cases p)
    have f: "find (\<lambda>(x, y). x \<noteq> y) (zip xs ys) = Some (x, y)"
      using Some p by simp
    have g: "find (\<lambda>(x, y). x \<noteq> y) (zip ys xs) = Some (y, x)"
      using find_diff_swap[OF len] f by simp
    have m: "(x, y) \<in> set (zip xs ys)" and ne: "x \<noteq> y"
      using find_pair_props[OF f] by simp_all
    have xm: "x \<in> set xs" and ym: "y \<in> set ys"
      using m by (rule set_zip_leftD, rule set_zip_rightD)
    have "js_double x" using xm unfolding xs_def ap_def by (rule pad_components_double)
    moreover have "js_double y" using ym unfolding ys_def bp_def by (rule pad_components_double)
    ultimately have "js_sub x y \<noteq> NaN"
      using ne by (rule js_sub_not_NaN)
    then show ?thesis
      unfolding ab ba f g using js_sub_neg[of y x] by simp
  qed
qed

lemma compareVersions_double: "js_double (compareVersions a b)"
proof -
  define zs where "zs = zip (pad_zero (max (length (components a)) (length (components b))) (components a))
      (pad_zero (max (length (components a)) (length (components b))) (components b))"
  have code: "compareVersions a b =
      (case find (\<lambda>(x, y). x \<noteq> y) zs of
        Some (x, y) \<Rightarrow> js_sub x y
      | None \<Rightarrow> Fin (of_int (int (length (components a)) - int (length (components b)))))"
    unfolding zs_def compareVersions_find Let_def by (rule refl)
  show ?thesis
  proof (cases "find (\<lambda>(x, y). x \<noteq> y) zs")
    case None
    show ?thesis unfolding code None by (simp only: option.case js_double_of_int)
  next
    case (Some p)
    obtain x y where p: "p = (x, y)" by (cases p)
    have f: "find (\<lambda>(x, y). x \<noteq> y) zs = Some (x, y)"
      using Some p by simp
    have m: "(x, y) \<in> set zs" and ne: "x \<noteq> y"
      using find_pair_props[OF f] by simp_all
    have "js_double x"
      using set_zip_leftD[OF m[unfolded zs_def]] by (rule pad_components_double)
    moreover have "js_double y"
      using set_zip_rightD[OF m[unfolded zs_def]] by (rule pad_components_double)
    ultimately have "js_double (js_sub x y)" using ne by (rule js_sub_double)
    then show ?thesis unfolding code f by simp
  qed
qed

lemma compareVersions_refl: "compareVersions a a = Fin 0"
proof -
  have "find (\<lambda>(x, y). x \<noteq> y) (zip xs xs) = None" for xs :: "jsnum list"
    by (induction xs) auto
  then show ?thesis
    unfolding compareVersions_find Let_def by simp
qed

lemma sign_of_LT: "sign_of x = LT \<longleftrightarrow> js_lt0 x"
  by (cases x) (auto simp: sign_of_def)

lemma sign_of_GT: "sign_of x = GT \<longleftrightarrow> js_gt0 x"
  by (cases x) (auto simp: sign_of_def)

lemma key_order_trans_LT:
  "key_order n a b = LT \<Longrightarrow> key_order n b c = LT \<Longrightarrow> key_order n a c = LT"
  unfolding key_order_def by (auto split: if_splits)

lemma key_order_trans_le:
  "key_order n a b \<noteq> GT \<Longrightarrow> key_order n b c \<noteq> GT \<Longrightarrow> key_order n a c \<noteq> GT"
  unfolding key_order_def by (auto split: if_splits)

lemma key_order_total: "key_order n a b \<noteq> GT \<or> key_order n b a \<noteq> GT"
  unfolding key_order_def by (auto split: if_splits)


lemma compareVersions_preorder:
  "(js_lt0 (compareVersions a b) \<and> js_lt0 (compareVersions b c) \<longrightarrow> js_lt0 (compareVersions a c)) \<and>
   (\<not> js_gt0 (compareVersions a b) \<and> \<not> js_gt0 (compareVersions b c) \<longrightarrow> \<not> js_gt0 (compareVersions a c)) \<and>
   (\<not> js_gt0 (compareVersions a b) \<or> \<not> js_gt0 (compareVersions b a))"
proof -
  define n where "n = max (length (components a)) (max (length (components b)) (length (components c)))"
  have l: "length (components a) \<le> n" "length (components b) \<le> n" "length (components c) \<le> n"
    by (simp_all add: n_def)
  have k: "sign_of (compareVersions a b) = key_order n a b"
          "sign_of (compareVersions b c) = key_order n b c"
          "sign_of (compareVersions a c) = key_order n a c"
          "sign_of (compareVersions b a) = key_order n b a"
    using l by (simp_all add: compareVersions_key)
  show ?thesis
    using key_order_trans_LT[of n a b c] key_order_trans_le[of n a b c] key_order_total[of n a b]
    unfolding k[symmetric] sign_of_LT sign_of_GT by simp
qed

lemma compareVersions_not_after_trans:
  "\<not> js_gt0 (compareVersions a b) \<Longrightarrow> \<not> js_gt0 (compareVersions b c) \<Longrightarrow>
   \<not> js_gt0 (compareVersions a c)"
  using compareVersions_preorder[of a b c] by simp

lemma compareVersions_not_after_total:
  "\<not> js_gt0 (compareVersions a b) \<or> \<not> js_gt0 (compareVersions b a)"
  using compareVersions_preorder[of a b b] by simp

text \<open>
  A missing component is compared as 0 with every component of the longer version, a
  negative one included.
\<close>

lemma compareVersions_missing_is_zero:
  "js_lt0 (compareVersions ''1'' ''1.0.1'') \<and> js_gt0 (compareVersions ''1'' ''1.-1'')"
  by code_simp

text \<open>
  The components are doubles: a literal above \<open>2^53\<close> is rounded, one above the largest
  double is an infinity, and two equal infinities compare as equal components. A no-break
  space around a component is white space.
\<close>

lemma components_overflow:
  "components ''1e309'' = [PosInf] \<and> components ''1e310'' = [PosInf]"
proof -
  have "(2::rat) ^ 1024 \<le> 10 ^ 309" by simp
  moreover have "(2::rat) ^ 1024 \<le> 10 ^ 310" by simp
  ultimately show ?thesis
    by (simp add: components_def split_dot_def Number_def trim_def is_ws_def radix_literal_def
        unsigned_decimal_def is_exp_mark_def digits_def digit_of_def exponent_def scale10_def
        to_double_overflow or_zero_def Let_def)
qed

lemma compareVersions_rounds:
  "compareVersions ''9007199254740993'' ''9007199254740992'' = Fin 0 \<and>
   compareVersions ''1e309'' ''1e310'' = Fin 0"
proof -
  have 1: "compareVersions ''9007199254740993'' ''9007199254740992'' = Fin 0" by code_simp
  have 2: "compareVersions ''1e309'' ''1e310'' = Fin 0"
    unfolding compareVersions_def Let_def using components_overflow
    by (simp add: compare_loop.simps at_or_zero_def js_strict_ne_def)
  show ?thesis using 1 2 by simp
qed

lemma compareVersions_no_break_space:
  "compareVersions ([CHR 0xA0] @ ''1'') ''0'' = Fin 1"
  by code_simp

subsection \<open>The claims about compareVersions\<close>

text \<open>
  Claim C1. For all version strings a and b, compareVersions compares them by their
  numeric components, split on the dots, where a component that is not numeric or is
  missing counts as 0, from left to right; when no component differs, the shorter sequence
  comes first. The sign of the result is the order \<open>compare_spec\<close>, which is written from
  these words. In particular "1.19.1" is before "1.21.1", "1.2" before "1.2.0", and "2.10"
  after "2.9".
\<close>

theorem compareVersions_dotted_numeric_order:
  "sign_of (compareVersions a b) = compare_spec a b \<and>
   js_lt0 (compareVersions ''1.19.1'' ''1.21.1'') \<and>
   js_lt0 (compareVersions ''1.2'' ''1.2.0'') \<and>
   js_gt0 (compareVersions ''2.10'' ''2.9'')"
proof -
  have "js_lt0 (compareVersions ''1.19.1'' ''1.21.1'')" by code_simp
  moreover have "js_lt0 (compareVersions ''1.2'' ''1.2.0'')" by code_simp
  moreover have "js_gt0 (compareVersions ''2.10'' ''2.9'')" by code_simp
  ultimately show ?thesis
    using compareVersions_sign by simp
qed

theorem compareVersions_dotted_numeric_order_witness:
  "sign_of (compareVersions ''1.x.3'' ''1.0.3.0'') = LT \<and> compare_spec ''1.x.3'' ''1.0.3.0'' = LT"
proof -
  have "compare_spec ''1.x.3'' ''1.0.3.0'' = LT" by code_simp
  then show ?thesis
    using compareVersions_dotted_numeric_order[of "''1.x.3''" "''1.0.3.0''"] by simp
qed

text \<open>
  Claim C2. For all version strings a and b, \<open>compareVersions(a, b) == -compareVersions(b, a)\<close>,
  and \<open>compareVersions(a, a) == 0\<close>.
\<close>

theorem compareVersions_antisymmetric:
  "js_eq (compareVersions a b) (js_neg (compareVersions b a)) \<and> js_eq (compareVersions a a) (Fin 0)"
proof -
  have 1: "compareVersions a b = js_neg (compareVersions b a)" "compareVersions b a \<noteq> NaN"
    using compareVersions_swap[of a b] compareVersions_swap[of b a] by simp_all
  have 2: "compareVersions a b \<noteq> NaN"
    using compareVersions_swap[of b a] by simp
  show ?thesis
    using 1 2 by (simp add: js_eq_def compareVersions_refl)
qed

theorem compareVersions_antisymmetric_witness:
  "js_eq (compareVersions ''1.19.1'' ''1.21'') (js_neg (compareVersions ''1.21'' ''1.19.1'')) \<and>
   js_eq (compareVersions ''1.19.1'' ''1.19.1'') (Fin 0)"
  using compareVersions_antisymmetric[of "''1.19.1''" "''1.21''"]
    compareVersions_antisymmetric[of "''1.19.1''" "''1.19.1''"]
  by simp

text \<open>
  Claim C10. The sign of compareVersions is transitive: if a is before b and b before c,
  then a is before c. So is "not after", and of two versions one is not after the other:
  compareVersions induces a total preorder. Its equivalence is coarser than the equality of
  strings: "1.a" and "1.b" compare equal.
\<close>

theorem compareVersions_transitive:
  "(js_lt0 (compareVersions a b) \<and> js_lt0 (compareVersions b c) \<longrightarrow> js_lt0 (compareVersions a c)) \<and>
   (\<not> js_gt0 (compareVersions a b) \<and> \<not> js_gt0 (compareVersions b c) \<longrightarrow> \<not> js_gt0 (compareVersions a c)) \<and>
   (\<not> js_gt0 (compareVersions a b) \<or> \<not> js_gt0 (compareVersions b a)) \<and>
   ''1.a'' \<noteq> ''1.b'' \<and> js_eq (compareVersions ''1.a'' ''1.b'') (Fin 0)"
proof -
  have ex: "js_eq (compareVersions ''1.a'' ''1.b'') (Fin 0)" by code_simp
  show ?thesis
    using compareVersions_preorder[of a b c] ex by simp
qed

theorem compareVersions_transitive_witness:
  "js_lt0 (compareVersions ''1.2'' ''1.10'') \<and> js_lt0 (compareVersions ''1.10'' ''2'') \<and>
   js_lt0 (compareVersions ''1.2'' ''2'') \<and>
   \<not> js_gt0 (compareVersions ''1.a'' ''1.b'') \<and> \<not> js_gt0 (compareVersions ''1.b'' ''1.0.0'') \<and>
   \<not> js_gt0 (compareVersions ''1.a'' ''1.0.0'')"
proof -
  have h: "js_lt0 (compareVersions ''1.2'' ''1.10'')" "js_lt0 (compareVersions ''1.10'' ''2'')"
    by code_simp+
  have g: "\<not> js_gt0 (compareVersions ''1.a'' ''1.b'')" "\<not> js_gt0 (compareVersions ''1.b'' ''1.0.0'')"
    by code_simp+
  show ?thesis
    using h g compareVersions_transitive[of "''1.2''" "''1.10''" "''2''"]
      compareVersions_transitive[of "''1.a''" "''1.b''" "''1.0.0''"]
    by simp
qed

section \<open>Properties of loadBuilds\<close>

lemma truncate_enrich: "Build.truncate (enrich v b) = b"
  by (cases b) (simp add: enrich_def Build.extend_def Build.truncate_def)

lemma mcVersion_enrich: "mcVersion (enrich v b) = v"
  by (cases b) (simp add: enrich_def Build.extend_def EnrichedBuild.fields_def)

lemma flatten_Nil: "flatten [] = []"
  by (simp add: flatten_def)

lemma flatten_Cons: "flatten ((v, arr) # rest) = map (enrich v) arr @ flatten rest"
  by (simp add: flatten_def)

lemma flatten_pairs:
  "map (\<lambda>e. (mcVersion e, Build.truncate e)) (flatten entries) =
   concat (map (\<lambda>(v, arr). map (Pair v) arr) entries)"
proof (induction entries)
  case Nil
  show ?case by (simp add: flatten_Nil)
next
  case (Cons p entries)
  obtain v arr where p: "p = (v, arr)" by (cases p)
  show ?case
    unfolding p using Cons.IH
    by (simp add: flatten_Cons truncate_enrich mcVersion_enrich o_def)
qed

lemma length_flatten: "length (flatten entries) = sum_list (map (\<lambda>(v, arr). length arr) entries)"
  by (induction entries) (auto simp: flatten_Nil flatten_Cons)

lemma loadBuilds_success:
  "ok res \<Longrightarrow> body res = JsonValue json \<Longrightarrow>
   loadBuilds (FetchResponse res) =
     Inr \<lparr>data = Some json, builds = flatten (case versions json of None \<Rightarrow> [] | Some vs \<Rightarrow> vs),
          error = None\<rparr>"
  by (simp add: loadBuilds_def loadBuilds_try_def)

lemma loadBuilds_not_ok:
  "\<not> ok res \<Longrightarrow>
   loadBuilds (FetchResponse res) =
     Inr \<lparr>data = None, builds = [],
          error = Some (''Failed to fetch data ('' @ show_nat (http_status res) @ '')'')\<rparr>"
  by (simp add: loadBuilds_def loadBuilds_try_def)

lemma loadBuilds_fetch_throws:
  "loadBuilds (FetchThrows e) =
     Inr \<lparr>data = None, builds = [],
          error = Some (case e of ErrorObject m \<Rightarrow> m | OtherValue \<Rightarrow> ''Unknown error'')\<rparr>"
  by (simp add: loadBuilds_def loadBuilds_try_def)

lemma loadBuilds_json_throws:
  "ok res \<Longrightarrow> body res = JsonThrows e \<Longrightarrow>
   loadBuilds (FetchResponse res) =
     Inr \<lparr>data = None, builds = [],
          error = Some (case e of ErrorObject m \<Rightarrow> m | OtherValue \<Rightarrow> ''Unknown error'')\<rparr>"
  by (simp add: loadBuilds_def loadBuilds_try_def)

lemma loadBuilds_returns: "\<exists>r. loadBuilds f = Inr r"
  by (simp add: loadBuilds_def split: sum.split)

lemma loadBuilds_failed:
  assumes "retrieval_failed f"
  shows "\<exists>r msg. loadBuilds f = Inr r \<and> data r = None \<and> builds r = [] \<and> error r = Some msg"
proof (cases f)
  case (FetchThrows e)
  then show ?thesis by (simp add: loadBuilds_fetch_throws)
next
  case (FetchResponse res)
  show ?thesis
  proof (cases "ok res")
    case False
    then show ?thesis unfolding FetchResponse by (simp add: loadBuilds_not_ok)
  next
    case True
    with assms FetchResponse obtain e where "body res = JsonThrows e"
      by (cases "body res") simp_all
    with True show ?thesis unfolding FetchResponse by (simp add: loadBuilds_json_throws)
  qed
qed

lemma loadBuilds_not_ok_message:
  assumes "\<not> ok res"
  shows "\<exists>r msg. loadBuilds (FetchResponse res) = Inr r \<and> builds r = [] \<and> error r = Some msg \<and>
         sublist (show_nat (http_status res)) msg"
proof -
  define msg where "msg = ''Failed to fetch data ('' @ show_nat (http_status res) @ '')''"
  have "sublist (show_nat (http_status res)) msg"
    unfolding msg_def by (rule sublist_appendI)
  moreover have "loadBuilds (FetchResponse res) = Inr \<lparr>data = None, builds = [], error = Some msg\<rparr>"
    unfolding msg_def using assms by (rule loadBuilds_not_ok)
  ultimately show ?thesis by simp
qed

text \<open>
  Claim C6. For every catalog, flattening its grouped versions yields one entry for each
  build of each group, in order, tagged with the key of the group it was found under, with
  the fields of the build unchanged: the pairs of tag and original build of the result are
  the pairs of key and build of the catalog. The catalog with the groups "1.19.1": [b1] and
  "1.21.1": [b2] yields exactly b1 tagged "1.19.1" and b2 tagged "1.21.1". A successful
  retrieval returns this sequence.
\<close>

theorem flatten_tags_every_build:
  "map (\<lambda>e. (mcVersion e, Build.truncate e)) (flatten entries) =
     concat (map (\<lambda>(v, arr). map (Pair v) arr) entries) \<and>
   length (flatten entries) = sum_list (map (\<lambda>(v, arr). length arr) entries) \<and>
   flatten [(''1.19.1'', [b1]), (''1.21.1'', [b2])] = [enrich ''1.19.1'' b1, enrich ''1.21.1'' b2] \<and>
   mcVersion (enrich v b) = v \<and> Build.truncate (enrich v b) = b \<and>
   (ok res \<and> body res = JsonValue json \<and> versions json = Some entries \<longrightarrow>
      (\<exists>r. loadBuilds (FetchResponse res) = Inr r \<and> builds r = flatten entries))"
  by (simp add: flatten_pairs length_flatten flatten_Cons flatten_Nil mcVersion_enrich
      truncate_enrich loadBuilds_success)

theorem flatten_tags_every_build_witness:
  "ok \<lparr>http_status = 200, body = JsonValue sample_catalog\<rparr> \<and>
   (\<exists>r. loadBuilds (FetchResponse \<lparr>http_status = 200, body = JsonValue sample_catalog\<rparr>) = Inr r \<and>
        builds r = [enrich ''1.19.1'' sample_build_1, enrich ''1.21.1'' sample_build_2])"
proof -
  have h: "ok \<lparr>http_status = 200, body = JsonValue sample_catalog\<rparr>"
       "body \<lparr>http_status = 200, body = JsonValue sample_catalog\<rparr> = JsonValue sample_catalog"
       "versions sample_catalog = Some [(''1.19.1'', [sample_build_1]), (''1.21.1'', [sample_build_2])]"
    by (simp_all add: ok_def sample_catalog_def)
  from h show ?thesis
    using flatten_tags_every_build[of "[(''1.19.1'', [sample_build_1]), (''1.21.1'', [sample_build_2])]"
        sample_build_1 sample_build_2 "''1.19.1''" sample_build_1
        "\<lparr>http_status = 200, body = JsonValue sample_catalog\<rparr>" sample_catalog]
    by auto
qed

text \<open>
  Claim C7. loadBuilds never lets an exception out: it always returns a result. When the
  retrieval fails (a network failure, a status outside 2xx, or a body that is not JSON)
  the result has no data, an empty sequence of builds and an error message; for a status
  outside 2xx the message includes the status.
\<close>

theorem loadBuilds_never_throws:
  "(\<exists>r. loadBuilds f = Inr r) \<and>
   (retrieval_failed f \<longrightarrow>
      (\<exists>r msg. loadBuilds f = Inr r \<and> data r = None \<and> builds r = [] \<and> error r = Some msg)) \<and>
   (\<not> ok res \<longrightarrow>
      (\<exists>r msg. loadBuilds (FetchResponse res) = Inr r \<and> builds r = [] \<and> error r = Some msg \<and>
         sublist (show_nat (http_status res)) msg))"
  using loadBuilds_returns[of f] loadBuilds_failed[of f] loadBuilds_not_ok_message[of res]
  by blast

theorem loadBuilds_never_throws_witness:
  "retrieval_failed (FetchResponse \<lparr>http_status = 404, body = JsonThrows OtherValue\<rparr>) \<and>
   \<not> ok \<lparr>http_status = 404, body = JsonThrows OtherValue\<rparr> \<and>
   (\<exists>r msg. loadBuilds (FetchResponse \<lparr>http_status = 404, body = JsonThrows OtherValue\<rparr>) = Inr r \<and>
      builds r = [] \<and> error r = Some msg \<and> sublist ''404'' msg)"
proof -
  have h: "\<not> ok \<lparr>http_status = 404, body = JsonThrows OtherValue\<rparr>"
    by (simp add: ok_def)
  have s: "show_nat 404 = ''404''"
    by code_simp
  from h show ?thesis
    using loadBuilds_never_throws[of "FetchResponse \<lparr>http_status = 404, body = JsonThrows OtherValue\<rparr>"
        "\<lparr>http_status = 404, body = JsonThrows OtherValue\<rparr>"] s
    by simp
qed

section \<open>Properties of the view\<close>

lemma mset_insert_sorted: "mset (insert_sorted cmp x xs) = add_mset x (mset xs)"
  by (induction xs) auto

lemma mset_js_sort: "mset (js_sort cmp xs) = mset xs"
  by (induction xs) (simp_all add: js_sort_def mset_insert_sorted)

lemma guideResults_filter:
  "guideResults bs sv sl exts = filter (criteria_match (selection sv) sl (set exts)) bs"
  unfolding guideResults_def
  by (rule filter_cong[OF refl])
     (auto simp: criteria_match_def selection_def buildMatchesExtensions_def list_all_iff
           split: option.splits)

text \<open>
  Claim C3. For every collection of entries and all criteria (an optional selected
  version, an optional selected loader, a set of required extensions), the guided filter
  returns exactly the entries whose version tag equals the selected version when one is
  selected, whose loaders contain the selected loader when one is selected, and whose
  extensions contain every required extension. The later revision, which sorts the
  result, returns the same entries in another order.
\<close>

theorem guideResults_exact_filter:
  "guideResults bs sv sl exts = filter (criteria_match (selection sv) sl (set exts)) bs \<and>
   mset (guideResults_sorted bs sv sl exts) =
     mset (filter (criteria_match (selection sv) sl (set exts)) bs)"
  by (simp add: guideResults_sorted_def mset_js_sort guideResults_filter)

theorem guideResults_exact_filter_witness:
  "guideResults [enrich ''1.21.1'' luaj_build, enrich ''1.21.1'' sample_build_2,
       enrich ''1.19.1'' sample_build_1] [] None [''luaj'', ''js'']
     = [enrich ''1.21.1'' sample_build_2, enrich ''1.19.1'' sample_build_1] \<and>
   guideResults [enrich ''1.21.1'' luaj_build, enrich ''1.21.1'' sample_build_2,
       enrich ''1.19.1'' sample_build_1] ''1.21.1'' (Some Fabric) [''luaj'']
     = [enrich ''1.21.1'' sample_build_2]"
proof -
  have e: "extensions (enrich v b) = extensions b" "modLoader (enrich v b) = modLoader b" for v b
    by (cases b; simp add: enrich_def Build.extend_def)+
  show ?thesis
    using guideResults_exact_filter[of "[enrich ''1.21.1'' luaj_build, enrich ''1.21.1'' sample_build_2,
         enrich ''1.19.1'' sample_build_1]" "[]" None "[''luaj'', ''js'']"]
      guideResults_exact_filter[of "[enrich ''1.21.1'' luaj_build, enrich ''1.21.1'' sample_build_2,
         enrich ''1.19.1'' sample_build_1]" "''1.21.1''" "Some Fabric" "[''luaj'']"]
    by (simp add: criteria_match_def selection_def mcVersion_enrich e luaj_build_def
        sample_build_1_def sample_build_2_def)
qed


lemma starts_with_prefix: "starts_with s t = prefix t s"
  by (induction s t rule: starts_with.induct) auto

lemma str_includes_sublist: "str_includes s t = sublist t s"
proof (induction s)
  case Nil
  show ?case by simp
next
  case (Cons c s)
  then show ?case
    by (simp add: starts_with_prefix sublist_Cons_right)
qed

lemma search_filter_sublist:
  "search_filter hay search bs = filter (\<lambda>b. sublist (toLowerCase (trim search)) (hay b)) bs"
  unfolding search_filter_def Let_def
  by (rule filter_cong[OF refl]) (simp add: str_includes_sublist)

lemma haystack_fields: "haystack e = toLowerCase (join '' '' (search_fields e))"
  by (simp add: haystack_def search_fields_def)

lemma haystack2_fields: "haystack2 e = toLowerCase (join '' '' (search_fields2 e))"
  by (simp add: haystack2_def search_fields2_def)

lemma search_filter_matches:
  "search_filter haystack search bs = filter (search_matches (trim search)) bs"
  unfolding search_filter_sublist
  by (rule filter_cong[OF refl]) (simp add: search_matches_def haystack_fields)

lemma search_filter_empty: "trim search = [] \<Longrightarrow> search_filter hay search bs = bs"
  by (simp add: search_filter_def toLowerCase_def)

lemma set_insert_sorted: "set (insert_sorted cmp x xs) = insert x (set xs)"
  by (induction xs) auto

lemma set_js_sort: "set (js_sort cmp xs) = set xs"
  by (induction xs) (simp_all add: js_sort_def set_insert_sorted)

text \<open>Insertion keeps a list sorted by a total, transitive relation that the comparator decides.\<close>

lemma sorted_wrt_insert_sorted:
  assumes dec: "\<And>y. y \<in> set ys \<Longrightarrow> js_gt0 (cmp x y) = (\<not> R x y)"
    and tot: "\<And>y. y \<in> set ys \<Longrightarrow> R x y \<or> R y x"
    and trans: "\<And>y z. y \<in> set ys \<Longrightarrow> z \<in> set ys \<Longrightarrow> R x y \<Longrightarrow> R y z \<Longrightarrow> R x z"
    and sorted: "sorted_wrt R ys"
  shows "sorted_wrt R (insert_sorted cmp x ys)"
  using assms
proof (induction ys)
  case Nil
  show ?case by simp
next
  case (Cons y ys)
  show ?case
  proof (cases "js_gt0 (cmp x y)")
    case True
    then have "\<not> R x y" using Cons.prems(1)[of y] by simp
    then have yx: "R y x" using Cons.prems(2)[of y] by simp
    have "sorted_wrt R (insert_sorted cmp x ys)"
    proof (rule Cons.IH)
      show "js_gt0 (cmp x z) = (\<not> R x z)" if "z \<in> set ys" for z
        using that Cons.prems(1)[of z] by simp
      show "R x z \<or> R z x" if "z \<in> set ys" for z
        using that Cons.prems(2)[of z] by simp
      show "R x w" if "z \<in> set ys" "w \<in> set ys" "R x z" "R z w" for z w
        using that Cons.prems(3)[of z w] by simp
      show "sorted_wrt R ys" using Cons.prems(4) by simp
    qed
    moreover have "\<forall>z \<in> set (insert_sorted cmp x ys). R y z"
      using yx Cons.prems(4) by (simp add: set_insert_sorted)
    ultimately show ?thesis using True by simp
  next
    case False
    then have xy: "R x y" using Cons.prems(1)[of y] by simp
    have "\<forall>z \<in> set ys. R x z"
    proof
      fix z assume z: "z \<in> set ys"
      then have "R y z" using Cons.prems(4) by simp
      then show "R x z" using Cons.prems(3)[of y z] xy z by simp
    qed
    then show ?thesis using False xy Cons.prems(4) by simp
  qed
qed

lemma sorted_wrt_js_sort:
  assumes dec: "\<And>x y. x \<in> set xs \<Longrightarrow> y \<in> set xs \<Longrightarrow> js_gt0 (cmp x y) = (\<not> R x y)"
    and tot: "\<And>x y. x \<in> set xs \<Longrightarrow> y \<in> set xs \<Longrightarrow> R x y \<or> R y x"
    and trans: "\<And>x y z. x \<in> set xs \<Longrightarrow> y \<in> set xs \<Longrightarrow> z \<in> set xs \<Longrightarrow> R x y \<Longrightarrow> R y z \<Longrightarrow> R x z"
  shows "sorted_wrt R (js_sort cmp xs)"
  using assms
proof (induction xs)
  case Nil
  show ?case by (simp add: js_sort_def)
next
  case (Cons x xs)
  have ih: "sorted_wrt R (js_sort cmp xs)"
  proof (rule Cons.IH)
    show "js_gt0 (cmp u v) = (\<not> R u v)" if "u \<in> set xs" "v \<in> set xs" for u v
      using that Cons.prems(1)[of u v] by simp
    show "R u v \<or> R v u" if "u \<in> set xs" "v \<in> set xs" for u v
      using that Cons.prems(2)[of u v] by simp
    show "R u w" if "u \<in> set xs" "v \<in> set xs" "w \<in> set xs" "R u v" "R v w" for u v w
      using that Cons.prems(3)[of u v w] by simp
  qed
  have "sorted_wrt R (insert_sorted cmp x (js_sort cmp xs))"
  proof (rule sorted_wrt_insert_sorted[OF _ _ _ ih])
    fix y assume "y \<in> set (js_sort cmp xs)"
    then have y: "y \<in> set xs" by (simp add: set_js_sort)
    then show "js_gt0 (cmp x y) = (\<not> R x y)" using Cons.prems(1)[of x y] by simp
    show "R x y \<or> R y x" using Cons.prems(2)[of x y] y by simp
  next
    fix y z assume "y \<in> set (js_sort cmp xs)" "z \<in> set (js_sort cmp xs)" "R x y" "R y z"
    then show "R x z" using Cons.prems(3)[of x y z] by (simp add: set_js_sort)
  qed
  then show ?case by (simp add: js_sort_def)
qed

lemma dateTime_cases: "dateTime s = NaN \<or> (\<exists>i::int. dateTime s = Fin (of_int i))"
  unfolding dateTime_def by (auto split: option.splits simp del: of_int_mult)

lemma timestamp_cases: "timestamp e = NaN \<or> (\<exists>i::int. timestamp e = Fin (of_int i))"
proof -
  have z: "\<exists>i::int. Fin 0 = Fin (of_int i)" by (rule exI[of _ 0]) simp
  show ?thesis
    unfolding timestamp_def using z dateTime_cases by (simp split: option.splits)
qed

lemma compareBuilds_date_asc:
  assumes "timestamp a \<noteq> NaN" "timestamp b \<noteq> NaN"
  shows "js_gt0 (compareBuilds lc PublishedAt Asc a b) =
         (\<not> fin_value (timestamp a) \<le> fin_value (timestamp b))"
proof -
  obtain i j :: int where t: "timestamp a = Fin (of_int i)" "timestamp b = Fin (of_int j)"
    using assms timestamp_cases[of a] timestamp_cases[of b] by auto
  have g: "on_grid (of_int i - of_int j)"
    by (intro on_grid_diff on_grid_of_int)
  have "js_gt0 (compareBuilds lc PublishedAt Asc a b) =
      js_gt0 (js_mul (to_double (of_int i - of_int j)) (Fin 1))"
    by (simp add: compareBuilds_def t)
  also have "\<dots> = js_gt0 (to_double (of_int i - of_int j))"
    by (rule js_mul_one) (rule to_double_double)
  also have "\<dots> = ((0::rat) < of_int i - of_int j)"
    using g by (rule to_double_sign)
  finally show ?thesis
    by (auto simp: t fin_value_def)
qed

lemma sorted_by_date:
  assumes "dates_valid bs" "set xs \<subseteq> set bs"
  shows "sorted_wrt (\<lambda>a b. fin_value (timestamp a) \<le> fin_value (timestamp b))
           (js_sort (compareBuilds lc PublishedAt Asc) xs)"
proof (rule sorted_wrt_js_sort)
  fix x y assume "x \<in> set xs" "y \<in> set xs"
  then have "timestamp x \<noteq> NaN" "timestamp y \<noteq> NaN"
    using assms by (auto simp: dates_valid_def list_all_iff)
  then show "js_gt0 (compareBuilds lc PublishedAt Asc x y) =
      (\<not> fin_value (timestamp x) \<le> fin_value (timestamp y))"
    by (rule compareBuilds_date_asc)
qed auto

lemma undated_first_sorted:
  assumes s: "sorted_wrt (\<lambda>a b. fin_value (timestamp a) \<le> fin_value (timestamp b)) r"
  shows "undated_first r"
  unfolding undated_first_def
proof (intro allI impI)
  fix i j
  assume h: "i < length r \<and> j < length r \<and> publishedAt (r ! i) = None \<and> js_gt0 (timestamp (r ! j))"
  then have ti: "timestamp (r ! i) = Fin 0"
    by (simp add: timestamp_def)
  obtain q where tj: "timestamp (r ! j) = Fin q" "0 < q"
    using h timestamp_cases[of "r ! j"] by auto
  show "i < j"
  proof (rule ccontr)
    assume "\<not> i < j"
    with ti tj have "j < i" by (cases "i = j") auto
    then have "fin_value (timestamp (r ! j)) \<le> fin_value (timestamp (r ! i))"
      using s h by (simp add: sorted_wrt_iff_nth_less)
    with ti tj show False by (simp add: fin_value_def)
  qed
qed

lemma set_search_filter: "set (search_filter hay search bs) \<subseteq> set bs"
  by (auto simp: search_filter_def Let_def)

lemma undated_first_sort:
  assumes "dates_valid xs"
  shows "undated_first (js_sort (compareBuilds lc PublishedAt Asc) (search_filter hay search xs))"
  using sorted_by_date[OF assms set_search_filter] by (rule undated_first_sorted)

lemma compareBuilds_text_asc:
  "js_gt0 (compareBuilds lc JsMacrosVersion Asc a b) =
     (\<not> lc (jsMacrosVersion a) (jsMacrosVersion b) \<le> 0)"
proof -
  have "js_gt0 (compareBuilds lc JsMacrosVersion Asc a b) =
      js_gt0 (Fin (of_int (lc (jsMacrosVersion a) (jsMacrosVersion b))))"
    unfolding compareBuilds_def Let_def using js_mul_one[OF js_double_of_int] by simp
  then show ?thesis by auto
qed

lemma compareBuilds_text_desc:
  "js_gt0 (compareBuilds lc JsMacrosVersion Desc a b) =
     (\<not> 0 \<le> lc (jsMacrosVersion a) (jsMacrosVersion b))"
proof -
  have "js_gt0 (compareBuilds lc JsMacrosVersion Desc a b) =
      js_lt0 (Fin (of_int (lc (jsMacrosVersion a) (jsMacrosVersion b))))"
    unfolding compareBuilds_def Let_def using js_mul_minus_one[OF js_double_of_int] by simp
  then show ?thesis by auto
qed

lemma compareBuilds_version_asc:
  "js_gt0 (compareBuilds lc McVersion Asc a b) =
     (\<not> \<not> js_gt0 (compareVersions (mcVersion a) (mcVersion b)))"
  by (simp add: compareBuilds_def js_mul_one compareVersions_double)

lemma consistent_on_flip:
  assumes "consistent_on lc S" "x \<in> S" "y \<in> S"
  shows "(0 \<le> lc x y) = (lc y x \<le> 0)"
proof -
  have "(lc x y < 0) = (0 < lc y x)"
    using assms unfolding consistent_on_def by blast
  then show ?thesis by auto
qed

lemma consistent_on_trans:
  assumes "consistent_on lc S" "x \<in> S" "y \<in> S" "z \<in> S" "lc x y \<le> 0" "lc y z \<le> 0"
  shows "lc x z \<le> 0"
  using assms unfolding consistent_on_def by blast

lemma sorted_text_asc:
  assumes c: "consistent_on lc (jsMacrosVersion ` set bs)" and sub: "set xs \<subseteq> set bs"
  shows "sorted_wrt (\<lambda>a b. lc (jsMacrosVersion a) (jsMacrosVersion b) \<le> 0)
           (js_sort (compareBuilds lc JsMacrosVersion Asc) xs)"
proof (rule sorted_wrt_js_sort)
  fix x y assume "x \<in> set xs" "y \<in> set xs"
  then have m: "jsMacrosVersion x \<in> jsMacrosVersion ` set bs"
      "jsMacrosVersion y \<in> jsMacrosVersion ` set bs"
    using sub by auto
  show "js_gt0 (compareBuilds lc JsMacrosVersion Asc x y) =
      (\<not> lc (jsMacrosVersion x) (jsMacrosVersion y) \<le> 0)"
    by (rule compareBuilds_text_asc)
  show "lc (jsMacrosVersion x) (jsMacrosVersion y) \<le> 0 \<or>
        lc (jsMacrosVersion y) (jsMacrosVersion x) \<le> 0"
    using consistent_on_flip[OF c m] by linarith
next
  fix x y z assume "x \<in> set xs" "y \<in> set xs" "z \<in> set xs"
  then have m: "jsMacrosVersion x \<in> jsMacrosVersion ` set bs"
      "jsMacrosVersion y \<in> jsMacrosVersion ` set bs"
      "jsMacrosVersion z \<in> jsMacrosVersion ` set bs"
    using sub by auto
  assume "lc (jsMacrosVersion x) (jsMacrosVersion y) \<le> 0"
         "lc (jsMacrosVersion y) (jsMacrosVersion z) \<le> 0"
  then show "lc (jsMacrosVersion x) (jsMacrosVersion z) \<le> 0"
    by (rule consistent_on_trans[OF c m])
qed

lemma sorted_text_desc:
  assumes c: "consistent_on lc (jsMacrosVersion ` set bs)" and sub: "set xs \<subseteq> set bs"
  shows "sorted_wrt (\<lambda>a b. 0 \<le> lc (jsMacrosVersion a) (jsMacrosVersion b))
           (js_sort (compareBuilds lc JsMacrosVersion Desc) xs)"
proof (rule sorted_wrt_js_sort)
  fix x y assume "x \<in> set xs" "y \<in> set xs"
  then have m: "jsMacrosVersion x \<in> jsMacrosVersion ` set bs"
      "jsMacrosVersion y \<in> jsMacrosVersion ` set bs"
    using sub by auto
  show "js_gt0 (compareBuilds lc JsMacrosVersion Desc x y) =
      (\<not> 0 \<le> lc (jsMacrosVersion x) (jsMacrosVersion y))"
    by (rule compareBuilds_text_desc)
  show "0 \<le> lc (jsMacrosVersion x) (jsMacrosVersion y) \<or>
        0 \<le> lc (jsMacrosVersion y) (jsMacrosVersion x)"
    using consistent_on_flip[OF c m] by linarith
next
  fix x y z assume "x \<in> set xs" "y \<in> set xs" "z \<in> set xs"
  then have m: "jsMacrosVersion x \<in> jsMacrosVersion ` set bs"
      "jsMacrosVersion y \<in> jsMacrosVersion ` set bs"
      "jsMacrosVersion z \<in> jsMacrosVersion ` set bs"
    using sub by auto
  assume "0 \<le> lc (jsMacrosVersion x) (jsMacrosVersion y)"
         "0 \<le> lc (jsMacrosVersion y) (jsMacrosVersion z)"
  then have "lc (jsMacrosVersion z) (jsMacrosVersion y) \<le> 0"
            "lc (jsMacrosVersion y) (jsMacrosVersion x) \<le> 0"
    using consistent_on_flip[OF c m(1) m(2)] consistent_on_flip[OF c m(2) m(3)] by simp_all
  then have "lc (jsMacrosVersion z) (jsMacrosVersion x) \<le> 0"
    by (rule consistent_on_trans[OF c m(3) m(2) m(1)])
  then show "0 \<le> lc (jsMacrosVersion x) (jsMacrosVersion z)"
    using consistent_on_flip[OF c m(1) m(3)] by simp
qed

lemma sorted_version_asc:
  "sorted_wrt (\<lambda>a b. \<not> js_gt0 (compareVersions (mcVersion a) (mcVersion b)))
     (js_sort (compareBuilds lc McVersion Asc) xs)"
proof (rule sorted_wrt_js_sort)
  fix x y :: "'a EnrichedBuild_scheme"
  show "js_gt0 (compareBuilds lc McVersion Asc x y) =
      (\<not> \<not> js_gt0 (compareVersions (mcVersion x) (mcVersion y)))"
    by (rule compareBuilds_version_asc)
  show "\<not> js_gt0 (compareVersions (mcVersion x) (mcVersion y)) \<or>
        \<not> js_gt0 (compareVersions (mcVersion y) (mcVersion x))"
    by (rule compareVersions_not_after_total)
next
  fix x y z :: "'a EnrichedBuild_scheme"
  assume "\<not> js_gt0 (compareVersions (mcVersion x) (mcVersion y))"
         "\<not> js_gt0 (compareVersions (mcVersion y) (mcVersion z))"
  then show "\<not> js_gt0 (compareVersions (mcVersion x) (mcVersion z))"
    by (rule compareVersions_not_after_trans)
qed

lemma consistent_collation_compare: "consistent_on collation_compare S"
  unfolding consistent_on_def collation_compare_def Let_def
  by (auto split: if_splits)

text \<open>
  Claim C4, amended. For every entry and every query, the search matches the entry if
  and only if the query, trimmed of the white space around it and lowercased, is a
  substring of the lowercased text of the entry: its version tag, software version, fork,
  repository, release type, loaders joined by spaces, extensions joined by spaces, and
  notes (empty when absent), all joined by spaces. A query that is empty after trimming
  matches every entry. The later revision of the view joins two more fields into the
  text: the source URL and the word "deprecated" for a deprecated entry.
\<close>

theorem search_matches_trimmed_query:
  "search_filter haystack search bs = filter (search_matches (trim search)) bs \<and>
   mset (listResults lc bs search k d) = mset (filter (search_matches (trim search)) bs) \<and>
   (trim search = [] \<longrightarrow> mset (listResults lc bs search k d) = mset bs) \<and>
   search_filter haystack2 search bs2 = filter (search_matches2 (trim search)) bs2 \<and>
   mset (listResults2 lc bs2 search k d) = mset (filter (search_matches2 (trim search)) bs2) \<and>
   (trim search = [] \<longrightarrow> mset (listResults2 lc bs2 search k d) = mset bs2)"
proof -
  have 1: "search_filter haystack search bs = filter (search_matches (trim search)) bs"
    by (rule search_filter_matches)
  have 2: "search_filter haystack2 search bs2 = filter (search_matches2 (trim search)) bs2"
    unfolding search_filter_sublist
    by (rule filter_cong[OF refl]) (simp add: search_matches2_def haystack2_fields)
  have 3: "trim search = [] \<Longrightarrow> search_filter hay search xs = xs" for hay :: "'x \<Rightarrow> string" and xs
    by (rule search_filter_empty)
  show ?thesis
    using 1 2 3[of haystack bs] 3[of haystack2 bs2]
    by (simp add: listResults_def listResults2_def mset_js_sort)
qed

theorem search_matches_trimmed_query_witness:
  "trim ''  '' = [] \<and>
   mset (listResults code_unit_compare [enrich ''1.21.1'' sample_build_2] ''  '' PublishedAt Desc)
     = mset [enrich ''1.21.1'' sample_build_2]"
proof -
  have "trim ''  '' = []" by code_simp
  then show ?thesis
    using search_matches_trimmed_query[where search = "''  ''" and bs = "[enrich ''1.21.1'' sample_build_2]"
        and lc = code_unit_compare and k = PublishedAt and d = Desc
        and ?bs2.0 = "[] :: EnrichedBuild2 list"]
    by simp
qed

text \<open>
  The claim as it was stated does not hold: the query " 1.21.1", with a space before it, is
  not a substring of the text of the sample build of 1.21.1, which starts with "1.21.1",
  and the search finds that build.
\<close>

theorem search_untrimmed_query_counterexample:
  "listResults code_unit_compare [enrich ''1.21.1'' sample_build_2] '' 1.21.1'' PublishedAt Desc
     = [enrich ''1.21.1'' sample_build_2] \<and>
   \<not> search_matches '' 1.21.1'' (enrich ''1.21.1'' sample_build_2)"
  by code_simp

text \<open>
  Claim C5, amended. For every collection of entries whose dates, where present, are
  calendar dates, sorting by publish date in ascending direction places every entry with
  no publishedAt before every entry whose publishedAt is after 1970-01-01: a missing date
  counts as timestamp 0.
\<close>

theorem listResults_undated_first:
  "(dates_valid bs \<longrightarrow> undated_first (listResults lc bs search PublishedAt Asc)) \<and>
   (dates_valid bs2 \<longrightarrow> undated_first (listResults2 lc bs2 search PublishedAt Asc))"
  unfolding listResults_def listResults2_def
  using undated_first_sort[of bs lc haystack search] undated_first_sort[of bs2 lc haystack2 search]
  by simp

theorem listResults_undated_first_witness:
  "dates_valid [enrich ''1.21.1'' undated_build, enrich ''1.19.1'' sample_build_1] \<and>
   undated_first (listResults code_unit_compare
      [enrich ''1.21.1'' undated_build, enrich ''1.19.1'' sample_build_1] [] PublishedAt Asc)"
proof -
  have "dates_valid [enrich ''1.21.1'' undated_build, enrich ''1.19.1'' sample_build_1]"
    by code_simp
  then show ?thesis
    using listResults_undated_first[where bs = "[enrich ''1.21.1'' undated_build, enrich ''1.19.1'' sample_build_1]"
        and lc = code_unit_compare and search = "[]" and ?bs2.0 = "[] :: EnrichedBuild2 list"]
    by simp
qed

text \<open>
  The claim as it was stated does not hold: an entry dated 1969-12-31 has a negative
  timestamp and is sorted before an entry with no date.
\<close>

theorem listResults_dated_before_undated_counterexample:
  "listResults code_unit_compare
      [enrich ''1.21.1'' undated_build, enrich ''1.19.1'' old_build] [] PublishedAt Asc
     = [enrich ''1.19.1'' old_build, enrich ''1.21.1'' undated_build] \<and>
   publishedAt (enrich ''1.19.1'' old_build) = Some ''1969-12-31'' \<and>
   publishedAt (enrich ''1.21.1'' undated_build) = None"
  by code_simp

text \<open>
  Claim C9, amended. Sorting by the software version orders the entries by the platform's
  collation (\<open>localeCompare\<close>) of the strings of their software versions, ascending or
  descending, given that the collation is a consistent comparator on them. It is a
  comparison of text, where "2.10.0" is before "2.9.0", and not the dotted-numeric
  comparison, which sorts the version tags and puts "2.10.0" after "2.9.0"; nor is it the
  lexicographic order of the character codes, in which "1.0.0-RC1" is before "1.0.0-beta",
  while the collation puts "1.0.0-beta" first.
\<close>

theorem listResults_software_version_collation:
  "(consistent_on lc (jsMacrosVersion ` set bs) \<longrightarrow>
      sorted_wrt (\<lambda>a b. lc (jsMacrosVersion a) (jsMacrosVersion b) \<le> 0)
        (listResults lc bs search JsMacrosVersion Asc) \<and>
      sorted_wrt (\<lambda>a b. 0 \<le> lc (jsMacrosVersion a) (jsMacrosVersion b))
        (listResults lc bs search JsMacrosVersion Desc)) \<and>
   (consistent_on lc (jsMacrosVersion ` set bs2) \<longrightarrow>
      sorted_wrt (\<lambda>a b. lc (jsMacrosVersion a) (jsMacrosVersion b) \<le> 0)
        (listResults2 lc bs2 search JsMacrosVersion Asc) \<and>
      sorted_wrt (\<lambda>a b. 0 \<le> lc (jsMacrosVersion a) (jsMacrosVersion b))
        (listResults2 lc bs2 search JsMacrosVersion Desc)) \<and>
   mset (listResults lc bs search JsMacrosVersion d) = mset (search_filter haystack search bs) \<and>
   mset (listResults2 lc bs2 search JsMacrosVersion d) = mset (search_filter haystack2 search bs2) \<and>
   sorted_wrt (\<lambda>a b. \<not> js_gt0 (compareVersions (mcVersion a) (mcVersion b)))
     (listResults lc bs search McVersion Asc) \<and>
   collation_compare ''2.10.0'' ''2.9.0'' < 0 \<and> js_gt0 (compareVersions ''2.10.0'' ''2.9.0'') \<and>
   collation_compare ''1.0.0-beta'' ''1.0.0-RC1'' < 0 \<and> ''1.0.0-RC1'' < ''1.0.0-beta''"
proof -
  have 1: "collation_compare ''2.10.0'' ''2.9.0'' < 0 \<and>
      collation_compare ''1.0.0-beta'' ''1.0.0-RC1'' < 0 \<and> ''1.0.0-RC1'' < ''1.0.0-beta''"
    by code_simp
  have 2: "js_gt0 (compareVersions ''2.10.0'' ''2.9.0'')" by code_simp
  have 3: "sorted_wrt (\<lambda>a b. lc (jsMacrosVersion a) (jsMacrosVersion b) \<le> 0)
        (listResults lc bs search JsMacrosVersion Asc) \<and>
      sorted_wrt (\<lambda>a b. 0 \<le> lc (jsMacrosVersion a) (jsMacrosVersion b))
        (listResults lc bs search JsMacrosVersion Desc)"
    if "consistent_on lc (jsMacrosVersion ` set bs)"
    unfolding listResults_def
    using sorted_text_asc[OF that set_search_filter] sorted_text_desc[OF that set_search_filter]
    by simp
  have 4: "sorted_wrt (\<lambda>a b. lc (jsMacrosVersion a) (jsMacrosVersion b) \<le> 0)
        (listResults2 lc bs2 search JsMacrosVersion Asc) \<and>
      sorted_wrt (\<lambda>a b. 0 \<le> lc (jsMacrosVersion a) (jsMacrosVersion b))
        (listResults2 lc bs2 search JsMacrosVersion Desc)"
    if "consistent_on lc (jsMacrosVersion ` set bs2)"
    unfolding listResults2_def
    using sorted_text_asc[OF that set_search_filter] sorted_text_desc[OF that set_search_filter]
    by simp
  have 5: "sorted_wrt (\<lambda>a b. \<not> js_gt0 (compareVersions (mcVersion a) (mcVersion b)))
     (listResults lc bs search McVersion Asc)"
    unfolding listResults_def by (rule sorted_version_asc)
  show ?thesis
    using 1 2 3 4 5 by (simp add: listResults_def listResults2_def mset_js_sort)
qed

theorem listResults_software_version_collation_witness:
  "consistent_on collation_compare
     (jsMacrosVersion ` set [enrich ''1.21.1'' undated_build, enrich ''1.19.1'' old_build,
         enrich ''1.19.1'' sample_build_1]) \<and>
   sorted_wrt (\<lambda>a b. collation_compare (jsMacrosVersion a) (jsMacrosVersion b) \<le> 0)
     (listResults collation_compare
        [enrich ''1.21.1'' undated_build, enrich ''1.19.1'' old_build,
         enrich ''1.19.1'' sample_build_1] [] JsMacrosVersion Asc) \<and>
   map jsMacrosVersion
     (listResults collation_compare
        [enrich ''1.21.1'' undated_build, enrich ''1.19.1'' old_build,
         enrich ''1.19.1'' sample_build_1] [] JsMacrosVersion Asc)
     = [''2.1.0'', ''2.10.0'', ''2.9.0'']"
proof -
  have e: "map jsMacrosVersion
     (listResults collation_compare
        [enrich ''1.21.1'' undated_build, enrich ''1.19.1'' old_build,
         enrich ''1.19.1'' sample_build_1] [] JsMacrosVersion Asc)
     = [''2.1.0'', ''2.10.0'', ''2.9.0'']"
    by code_simp
  have l: "consistent_on collation_compare
     (jsMacrosVersion ` set [enrich ''1.21.1'' undated_build, enrich ''1.19.1'' old_build,
         enrich ''1.19.1'' sample_build_1])"
    by (rule consistent_collation_compare)
  show ?thesis
    using l e
      listResults_software_version_collation[where lc = collation_compare and search = "[]"
        and d = Asc
        and bs = "[enrich ''1.21.1'' undated_build, enrich ''1.19.1'' old_build,
         enrich ''1.19.1'' sample_build_1]" and ?bs2.0 = "[] :: EnrichedBuild2 list"]
    by blast
qed

text \<open>
  The claim as it was stated does not hold: the order is not the lexicographic order of
  the strings. As strings, "1.0.0-RC1" is before "1.0.0-beta", a capital letter having the
  smaller code; the collation compares the letters b and r first, and the sort lists
  "1.0.0-beta" before "1.0.0-RC1".
\<close>

theorem listResults_collation_not_lexicographic_counterexample:
  "map jsMacrosVersion
     (listResults collation_compare
        [enrich ''1.21.1'' rc_build, enrich ''1.21.1'' beta_build] [] JsMacrosVersion Asc)
     = [''1.0.0-beta'', ''1.0.0-RC1''] \<and>
   ''1.0.0-RC1'' < ''1.0.0-beta''"
  by code_simp

section \<open>Properties of the validator\<close>

text \<open>The inner loop: what it returns, by the ids it has seen.\<close>

lemma check_builds_Inr:
  "check_builds ids v bs = Inr ids' \<Longrightarrow>
   ids' = ids \<union> set (map build_id bs) \<and> distinct (map build_id bs) \<and>
   ids \<inter> set (map build_id bs) = {}"
  by (induction bs arbitrary: ids) (auto split: if_splits)

lemma check_builds_Inl:
  "check_builds ids v bs = Inl d \<Longrightarrow>
   \<exists>pre b post. bs = pre @ b # post \<and> d = (build_id b, v) \<and> distinct (map build_id pre) \<and>
     ids \<inter> set (map build_id pre) = {} \<and> (build_id b \<in> ids \<or> build_id b \<in> set (map build_id pre))"
proof (induction bs arbitrary: ids)
  case Nil
  then show ?case by simp
next
  case (Cons b bs)
  show ?case
  proof (cases "build_id b \<in> ids")
    case True
    with Cons.prems have "d = (build_id b, v)" by simp
    with True show ?thesis by (intro exI[of _ "[]"] exI[of _ b] exI[of _ bs]) simp
  next
    case False
    with Cons.prems have "check_builds (insert (build_id b) ids) v bs = Inl d" by simp
    from Cons.IH[OF this] obtain pre c post where
      p: "bs = pre @ c # post" "d = (build_id c, v)" "distinct (map build_id pre)"
         "insert (build_id b) ids \<inter> set (map build_id pre) = {}"
         "build_id c \<in> insert (build_id b) ids \<or> build_id c \<in> set (map build_id pre)"
      by blast
    show ?thesis
      using p False by (intro exI[of _ "b # pre"] exI[of _ c] exI[of _ post]) auto
  qed
qed

lemma tagged_ids_Nil: "tagged_ids [] = []"
  by (simp add: tagged_ids_def)

lemma tagged_ids_Cons: "tagged_ids ((v, bs) # rest) = map (\<lambda>b. (build_id b, v)) bs @ tagged_ids rest"
  by (simp add: tagged_ids_def)

lemma fst_tagged: "map fst (map (\<lambda>b. (build_id b, v)) bs) = map build_id bs"
  by (simp add: o_def)

lemma fst_tagged_comp [simp]: "fst \<circ> (\<lambda>b. (build_id b, v)) = build_id"
  by (simp add: o_def)

text \<open>The outer loop finds nothing exactly when the ids are distinct and new.\<close>

lemma check_versions_None:
  "check_versions ids entries = None \<Longrightarrow>
   distinct (map fst (tagged_ids entries)) \<and> ids \<inter> set (map fst (tagged_ids entries)) = {}"
proof (induction entries arbitrary: ids)
  case Nil
  show ?case by (simp add: tagged_ids_Nil)
next
  case (Cons e entries)
  obtain v bs where e: "e = (v, bs)" by (cases e)
  from Cons.prems e obtain ids' where
    c: "check_builds ids v bs = Inr ids'" and r: "check_versions ids' entries = None"
    by (auto split: sum.splits)
  note b = check_builds_Inr[OF c]
  note ih = Cons.IH[OF r]
  show ?case
    unfolding e tagged_ids_Cons using b ih by (auto simp: fst_tagged)
qed

lemma check_versions_Some:
  "check_versions ids entries = Some d \<Longrightarrow>
   \<exists>pre post. tagged_ids entries = pre @ d # post \<and> distinct (map fst pre) \<and>
     ids \<inter> set (map fst pre) = {} \<and> (fst d \<in> ids \<or> fst d \<in> set (map fst pre))"
proof (induction entries arbitrary: ids)
  case Nil
  then show ?case by simp
next
  case (Cons e entries)
  obtain v bs where e: "e = (v, bs)" by (cases e)
  show ?case
  proof (cases "check_builds ids v bs")
    case (Inl d')
    with Cons.prems e have d: "d' = d" by simp
    from check_builds_Inl[OF Inl] obtain pre b post where
      p: "bs = pre @ b # post" "d' = (build_id b, v)" "distinct (map build_id pre)"
         "ids \<inter> set (map build_id pre) = {}"
         "build_id b \<in> ids \<or> build_id b \<in> set (map build_id pre)"
      by blast
    let ?pre = "map (\<lambda>b. (build_id b, v)) pre"
    let ?post = "map (\<lambda>b. (build_id b, v)) post @ tagged_ids entries"
    have "tagged_ids (e # entries) = ?pre @ d # ?post"
      unfolding e tagged_ids_Cons using p d by simp
    moreover have "distinct (map fst ?pre)" "ids \<inter> set (map fst ?pre) = {}"
      "fst d \<in> ids \<or> fst d \<in> set (map fst ?pre)"
      using p d unfolding fst_tagged by auto
    ultimately show ?thesis by blast
  next
    case (Inr ids')
    with Cons.prems e have r: "check_versions ids' entries = Some d" by simp
    note b = check_builds_Inr[OF Inr]
    from Cons.IH[OF r] obtain pre post where
      p: "tagged_ids entries = pre @ d # post" "distinct (map fst pre)"
         "ids' \<inter> set (map fst pre) = {}" "fst d \<in> ids' \<or> fst d \<in> set (map fst pre)"
      by blast
    let ?pre = "map (\<lambda>b. (build_id b, v)) bs @ pre"
    have "tagged_ids (e # entries) = ?pre @ d # post"
      unfolding e tagged_ids_Cons using p by simp
    moreover have "distinct (map fst ?pre)"
      using p b by (auto simp: fst_tagged)
    moreover have "ids \<inter> set (map fst ?pre) = {}"
      using p b by (auto simp: fst_tagged)
    moreover have "fst d \<in> ids \<or> fst d \<in> set (map fst ?pre)"
      using p b by (auto simp: fst_tagged)
    ultimately show ?thesis by blast
  qed
qed

lemma check_versions_first_duplicate:
  "check_versions {} entries = Some d \<Longrightarrow> is_first_duplicate (tagged_ids entries) d"
  using check_versions_Some[of "{}" entries d] unfolding is_first_duplicate_def by auto

lemma first_duplicate_not_distinct:
  "is_first_duplicate tagged d \<Longrightarrow> \<not> distinct (map fst tagged)"
proof -
  assume "is_first_duplicate tagged d"
  then obtain pre post where p: "tagged = pre @ d # post" "fst d \<in> fst ` set pre"
    unfolding is_first_duplicate_def by blast
  then have "fst d \<in> set (map fst pre)" by simp
  then show ?thesis unfolding p(1) by simp
qed

lemma check_versions_iff:
  "(check_versions {} entries = None) = distinct (map fst (tagged_ids entries))"
  using check_versions_None[of "{}" entries] check_versions_first_duplicate[of entries]
    first_duplicate_not_distinct[of "tagged_ids entries"]
  by (cases "check_versions {} entries") auto

lemma main_valid:
  "distinct (map fst (tagged_ids (entries_of d))) \<Longrightarrow>
   main base (ParseSuccess d) = \<lparr>exitCode = 0, stderr = [], stdout = [base @ '' is valid.'']\<rparr>"
  using check_versions_iff[of "entries_of d"]
  by (simp add: main_def entries_of_def)

lemma main_duplicate:
  assumes "\<not> distinct (map fst (tagged_ids (entries_of d)))"
  shows "\<exists>ident v. is_first_duplicate (tagged_ids (entries_of d)) (ident, v) \<and>
     main base (ParseSuccess d) =
       \<lparr>exitCode = 1, stderr = [duplicate_message base ident v], stdout = []\<rparr>"
proof -
  from assms obtain dup where c: "check_versions {} (entries_of d) = Some dup"
    using check_versions_iff[of "entries_of d"] by (cases "check_versions {} (entries_of d)") auto
  obtain ident v where dup: "dup = (ident, v)" by (cases dup)
  have "is_first_duplicate (tagged_ids (entries_of d)) (ident, v)"
    using check_versions_first_duplicate[OF c] dup by simp
  moreover have "main base (ParseSuccess d) =
       \<lparr>exitCode = 1, stderr = [duplicate_message base ident v], stdout = []\<rparr>"
    using c dup by (simp add: main_def entries_of_def)
  ultimately show ?thesis by blast
qed

lemma duplicate_message_names:
  "sublist ident (duplicate_message base ident v) \<and> suffix v (duplicate_message base ident v)"
proof -
  have "duplicate_message base ident v =
      (''Validation failed for '' @ base @ '': Duplicate build id \"'') @ ident @
      (''\" for Minecraft version '' @ v)"
    by (simp add: duplicate_message_def)
  then have "sublist ident (duplicate_message base ident v)"
    using sublist_appendI by metis
  moreover have "suffix v (duplicate_message base ident v)"
    unfolding duplicate_message_def suffix_def by (metis append.assoc)
  ultimately show ?thesis by simp
qed

lemma main_duplicate_catalog: "main ''builds.json'' (ParseSuccess duplicate_catalog) =
  \<lparr>exitCode = 1, stderr = [''Validation failed for builds.json: Duplicate build id \"jsmacros-2.1.0-1.19.1-fabric\" for Minecraft version 1.21.1''], stdout = []\<rparr>"
  by code_simp

text \<open>
  Claim C8. For every catalog of the right shape in which two builds anywhere, also in
  different groups, have the same id, validation fails with exit code 1 and reports the
  first duplicate found: the message names the id and the group it was found under. For
  every catalog whose ids are distinct, the check passes.
\<close>

theorem main_duplicate_ids:
  "(distinct (map fst (tagged_ids (entries_of d))) \<longrightarrow>
      main base (ParseSuccess d) = \<lparr>exitCode = 0, stderr = [], stdout = [base @ '' is valid.'']\<rparr>) \<and>
   (\<not> distinct (map fst (tagged_ids (entries_of d))) \<longrightarrow>
      (\<exists>ident v msg. is_first_duplicate (tagged_ids (entries_of d)) (ident, v) \<and>
         main base (ParseSuccess d) = \<lparr>exitCode = 1, stderr = [msg], stdout = []\<rparr> \<and>
         msg = duplicate_message base ident v \<and> sublist ident msg \<and> suffix v msg))"
  using main_valid[of d base] main_duplicate[of d base] duplicate_message_names
  by blast

theorem main_duplicate_ids_witness:
  "\<not> distinct (map fst (tagged_ids (entries_of duplicate_catalog))) \<and>
   distinct (map fst (tagged_ids (entries_of sample_catalog))) \<and>
   main ''builds.json'' (ParseSuccess sample_catalog)
     = \<lparr>exitCode = 0, stderr = [], stdout = [''builds.json is valid.'']\<rparr> \<and>
   (\<exists>ident v msg. is_first_duplicate (tagged_ids (entries_of duplicate_catalog)) (ident, v) \<and>
      main ''builds.json'' (ParseSuccess duplicate_catalog)
        = \<lparr>exitCode = 1, stderr = [msg], stdout = []\<rparr> \<and>
      msg = duplicate_message ''builds.json'' ident v \<and> sublist ident msg \<and> suffix v msg)"
proof -
  have 1: "\<not> distinct (map fst (tagged_ids (entries_of duplicate_catalog)))" by code_simp
  have 2: "distinct (map fst (tagged_ids (entries_of sample_catalog)))" by code_simp
  show ?thesis
    using 1 2 main_duplicate_ids[of duplicate_catalog "''builds.json''"] main_duplicate_ids[of sample_catalog "''builds.json''"]
    by simp
qed


end
